theory Spec2Isabelle
  imports Complex_Main "HOL-Library.Signed_Division" "HOL-Library.Multiset"
begin

section \<open>The THOR kd-tree builder (fastlib/thor/kdtree\_builder.h)\<close>

text \<open>
  Conventions of the embedding.
  \<^item> \<open>index_t\<close> and \<open>int\<close> values are modelled as \<open>int\<close>; C++ division of signed
    values truncates towards zero and is written \<open>sdiv\<close>. \<open>index_t\<close> is a signed integer of
    32 bits: the sums and products of indices that compute a split index (the index
    midpoint, the goal index and its rounding to the chunk size) are written with their
    wrap-around, \<open>to_index_t\<close>; so is the narrowing of the one \<open>uint64\<close> expression, which
    is itself written with its wrap-around modulo \<open>2 ^ 64\<close>. The other index expressions
    (cursors and counts inside a range of the cache) stay inside the range of the cache.
  \<^item> \<open>double\<close> coordinates are modelled as \<open>real\<close>: comparisons are exact, arithmetic is
    the exact one (no rounding, no infinities, no NaN).
  \<^item> The point cache is a list of coordinate vectors addressed by index; an index outside
    the list is the fatal error \<open>IndexOutOfRange\<close>.
\<close>

subsection \<open>Errors\<close>

datatype error =
    IndexOutOfRange    \<comment> \<open>an access to the point cache or to a bound outside its indices\<close>
  | DivisionByZero    \<comment> \<open>an integer division by zero\<close>
  | FloatDivisionByZero  \<comment> \<open>a \<open>double\<close> division by zero, whose result the reals do not model\<close>

subsection \<open>Ranges and bounds\<close>

type_synonym Vector = "real list"

text \<open>
  Modelled from the spec: \<open>tree/bounds.h\<close> is not part of the sources. A bounding region
  is a per-dimension interval. \<open>DRange\<close> is one interval with its two ends; the empty
  interval has its ends swapped at the largest finite \<open>double\<close>, so that its width is
  negative and extending it by a value gives the interval of that value alone.
\<close>

record DRange =
  lo :: real
  hi :: real

definition DBL_MAX :: real where
  "DBL_MAX = (2 ^ 53 - 1) * 2 ^ 971"

definition InitEmptySet :: DRange where
  "InitEmptySet = \<lparr>lo = DBL_MAX, hi = - DBL_MAX\<rparr>"

definition width :: "DRange \<Rightarrow> real" where
  "width r = hi r - lo r"

definition mid :: "DRange \<Rightarrow> real" where
  "mid r = (hi r + lo r) / 2"

definition interpolate :: "DRange \<Rightarrow> real \<Rightarrow> real" where
  "interpolate r factor = factor * width r + lo r"

definition range_add :: "DRange \<Rightarrow> real \<Rightarrow> DRange" where
  "range_add r d = \<lparr>lo = (if d < lo r then d else lo r), hi = (if d > hi r then d else hi r)\<rparr>"

definition range_union :: "DRange \<Rightarrow> DRange \<Rightarrow> DRange" where
  "range_union r other =
     \<lparr>lo = (if lo other < lo r then lo other else lo r),
      hi = (if hi other > hi r then hi other else hi r)\<rparr>"

type_synonym Bound = "DRange list"

definition Init :: "nat \<Rightarrow> Bound" where
  "Init dimension = replicate dimension InitEmptySet"

definition Reset :: "Bound \<Rightarrow> Bound" where
  "Reset b = replicate (length b) InitEmptySet"

definition bound_add_vec :: "Bound \<Rightarrow> Vector \<Rightarrow> Bound" where
  "bound_add_vec b v = map (\<lambda>d. range_add (b ! d) (v ! d)) [0..<length b]"

definition bound_union :: "Bound \<Rightarrow> Bound \<Rightarrow> Bound" where
  "bound_union b other = map (\<lambda>d. range_union (b ! d) (other ! d)) [0..<length b]"

subsection \<open>The point cache\<close>

definition in_cache :: "Vector list \<Rightarrow> int \<Rightarrow> bool" where
  "in_cache points i \<longleftrightarrow> 0 \<le> i \<and> i < int (length points)"

definition Swap :: "Vector list \<Rightarrow> int \<Rightarrow> int \<Rightarrow> Vector list" where
  "Swap points i j = points[nat i := points ! nat j, nat j := points ! nat i]"

subsection \<open>Partition\<close>

text \<open>
  The two inner loops of \<open>Partition\<close>. \<open>Partition_left\<close> is the first one (the left cursor
  advances), \<open>Partition_right\<close> the second one followed by the swap and the decrement of
  \<open>right_i\<close>, after which the outer loop starts again with the first. The result is the
  returned index with the cache and the two bounds as the call leaves them.
\<close>

type_synonym partition_result = "int \<times> Vector list \<times> Bound \<times> Bound"

function Partition_left ::
    "(Vector \<Rightarrow> bool) \<Rightarrow> Vector list \<Rightarrow> int \<Rightarrow> int \<Rightarrow> Bound \<Rightarrow> Bound \<Rightarrow> error + partition_result"
  and Partition_right ::
    "(Vector \<Rightarrow> bool) \<Rightarrow> Vector list \<Rightarrow> int \<Rightarrow> int \<Rightarrow> Bound \<Rightarrow> Bound \<Rightarrow> error + partition_result"
where
  "Partition_left is_left points left_i right_i left_bound right_bound =
     (if left_i > right_i then Inr (left_i, points, left_bound, right_bound)
      else if \<not> in_cache points left_i then Inl IndexOutOfRange
      else let left_v = points ! nat left_i in
        if \<not> is_left left_v
        then Partition_right is_left points left_i right_i left_bound
               (bound_add_vec right_bound left_v)
        else Partition_left is_left points (left_i + 1) right_i
               (bound_add_vec left_bound left_v) right_bound)"
| "Partition_right is_left points left_i right_i left_bound right_bound =
     (if left_i > right_i then Inr (left_i, points, left_bound, right_bound)
      else if \<not> in_cache points right_i then Inl IndexOutOfRange
      else let right_v = points ! nat right_i in
        if is_left right_v
        then Partition_left is_left (Swap points left_i right_i) left_i (right_i - 1)
               (bound_add_vec left_bound right_v) right_bound
        else Partition_right is_left points left_i (right_i - 1) left_bound
               (bound_add_vec right_bound right_v))"
  by pat_completeness auto
termination
  by (relation "measure (\<lambda>x. case x of
        Inl (c, ps, l, r, lb, rb) \<Rightarrow> 2 * nat (r - l + 1) + 1
      | Inr (c, ps, l, r, lb, rb) \<Rightarrow> 2 * nat (r - l + 1))") auto

definition Partition ::
    "(Vector \<Rightarrow> bool) \<Rightarrow> int \<Rightarrow> int \<Rightarrow> Vector list \<Rightarrow> Bound \<Rightarrow> Bound \<Rightarrow> error + partition_result" where
  "Partition is_left begin cnt points left_bound right_bound =
     Partition_left is_left points begin (begin + cnt - 1) left_bound right_bound"

declare Partition_left.simps [simp del] Partition_right.simps [simp del]

text \<open>The points of the cache at the indices \<open>[b, e)\<close>.\<close>

definition slice :: "'a list \<Rightarrow> int \<Rightarrow> int \<Rightarrow> 'a list" where
  "slice xs b e = take (nat (e - b)) (drop (nat b) xs)"

text \<open>
  What a run of the cursors between \<open>l\<close> and \<open>r\<close> has done when it returns: used in the
  proofs about \<open>Partition\<close>.
\<close>

definition part_post :: "(Vector \<Rightarrow> bool) \<Rightarrow> Vector list \<Rightarrow> int \<Rightarrow> int \<Rightarrow> error + partition_result \<Rightarrow> bool" where
  "part_post c ps l r res \<longleftrightarrow> (\<exists>s ps' lb' rb'. res = Inr (s, ps', lb', rb') \<and> l \<le> s \<and> s \<le> r + 1 \<and>
     length ps' = length ps \<and> mset ps' = mset ps \<and>
     (\<forall>i. l \<le> i \<and> i < s \<longrightarrow> c (ps' ! nat i)) \<and>
     (\<forall>i. s \<le> i \<and> i \<le> r \<longrightarrow> \<not> c (ps' ! nat i)) \<and>
     (\<forall>i. 0 \<le> i \<and> (i < l \<or> r < i) \<longrightarrow> ps' ! nat i = ps ! nat i))"


subsection \<open>The builder's members and its store\<close>

text \<open>
  \<open>leaf_size\<close>, \<open>chunk_size\<close> and \<open>n_points\<close> are the members \<open>leaf_size_\<close>, \<open>chunk_size_\<close>
  and \<open>n_points_\<close>; \<open>dim\<close> is \<open>dim_\<close>, and \<open>n_peers\<close> is what \<open>rpc::n_peers()\<close> returns.
  \<open>chunk_size_\<close> is set to \<open>points_.n_block_elems()\<close>, so it is also the block size of the
  point cache. \<open>fresh_count i\<close> is the \<open>count()\<close> of the node that \<open>nodes_.AllocD\<close> hands out at
  index \<open>i\<close>, before the builder has written to it: the node cache is not part of the
  sources, and \<open>Build_\<close> reads this field.
\<close>

record builder =
  leaf_size :: int
  chunk_size :: int
  n_points :: int
  dim :: nat
  n_peers :: int
  fresh_count :: "nat \<Rightarrow> int"

text \<open>
  The statistic of a node is pluggable. It is modelled by the operations applied to it,
  oldest first: \<open>Accumulate\<close> of a point, \<open>Accumulate\<close> of a child's statistic with its bound
  and count, and \<open>Postprocess\<close> with the node's bound and count.
\<close>

datatype stat_op =
    AccumulatePoint Vector
  | AccumulateNode "stat_op list" Bound int
  | Postprocess Bound int

type_synonym Stat = "stat_op list"

record Node =
  node_begin :: int
  node_count :: int
  node_bound :: Bound
  node_leaf :: bool
  node_child0 :: "nat option"
  node_child1 :: "nat option"
  node_stat :: Stat

definition node_end :: "Node \<Rightarrow> int" where
  "node_end node = node_begin node + node_count node"

text \<open>
  A decomposition node: the rank range of its \<open>Info\<close>, the index of its tree node, the end
  of the node cache when it was made, and its two child pointers (\<open>None\<close> is \<open>NULL\<close>).
\<close>

datatype DecompNode =
  DecompNode (info_begin_rank: int) (info_end_rank: int) (decomp_index: nat) (decomp_end_index: nat)
    (decomp_child0: "DecompNode option") (decomp_child1: "DecompNode option")

text \<open>
  The store: the point cache, the node cache (\<open>AllocD\<close> appends a node, so the index of a new
  node is the length of the list) and the calls of \<open>GiveOwnership\<close> made so far, oldest
  first, each with its block and its rank.
\<close>

record store =
  s_points :: "Vector list"
  s_nodes :: "Node list"
  s_given :: "(int \<times> int) list"

subsection \<open>Build\_: the parts before the recursion\<close>

definition BIG_BAD_NUMBER :: int where
  "BIG_BAD_NUMBER = 2146666666"

definition get :: "Bound \<Rightarrow> int \<Rightarrow> error + DRange" where
  "get b d = (if 0 \<le> d \<and> d < int (length b) then Inr (b ! nat d) else Inl IndexOutOfRange)"

text \<open>The short loop of \<open>Build_\<close> that finds the widest dimension, as a fold over \<open>d\<close>.\<close>

definition widest_step :: "Bound \<Rightarrow> int \<times> real \<Rightarrow> nat \<Rightarrow> int \<times> real" where
  "widest_step b acc d =
     (let w = width (b ! d) in if w > snd acc then (int d, w) else acc)"

definition widest_dim :: "builder \<Rightarrow> Bound \<Rightarrow> int" where
  "widest_dim B b = fst (foldl (widest_step b) (BIG_BAD_NUMBER, - 1) [0..<dim B])"

text \<open>The loop of a leaf over its points, \<open>node->stat().Accumulate(*param_, *point)\<close>.\<close>

definition leaf_stat :: "Vector list \<Rightarrow> int \<Rightarrow> int \<Rightarrow> Stat \<Rightarrow> error + Stat" where
  "leaf_stat ps b e st =
     (if b < e \<and> \<not> (in_cache ps b \<and> in_cache ps (e - 1)) then Inl IndexOutOfRange
      else Inr (st @ map (\<lambda>i. AccumulatePoint (ps ! nat i)) [b..e - 1]))"

subsection \<open>Split\_: the parts before the recursion\<close>

definition HrectPartitionCondition :: "int \<Rightarrow> real \<Rightarrow> Vector \<Rightarrow> bool" where
  "HrectPartitionCondition dimension val vector \<longleftrightarrow> vector ! nat dimension < val"

text \<open>
  Modelled from the spec: the block arithmetic of the point cache (\<open>cachearray.h\<close>) is not
  part of the sources. An index begins a block when it is a multiple of the block size
  (the test against \<open>n_block_elems_mask\<close>), and \<open>Blockid\<close> is the block that holds an index.
\<close>

definition begins_block :: "builder \<Rightarrow> int \<Rightarrow> bool" where
  "begins_block B i \<longleftrightarrow> i mod chunk_size B = 0"

definition Blockid :: "builder \<Rightarrow> int \<Rightarrow> int" where
  "Blockid B i = i sdiv chunk_size B"

text \<open>
  Lines 276 to 283 of \<open>Split_\<close>: the ownership of the node's first block is given away.
  The source reads a \<open>parent\<close> that \<open>Split_\<close> does not declare; it is the \<open>parent\<close> of the
  \<open>Build_\<close> that calls \<open>Split_\<close>, given here as the index of that node.
\<close>

definition gives_ownership :: "builder \<Rightarrow> Node list \<Rightarrow> Node \<Rightarrow> nat option \<Rightarrow> bool" where
  "gives_ownership B ns node parent \<longleftrightarrow>
     begins_block B (node_begin node) \<and>
     (case parent of None \<Rightarrow> True | Some p \<Rightarrow> node_begin (ns ! p) \<noteq> node_begin node)"

definition GiveOwnership :: "builder \<Rightarrow> store \<Rightarrow> Node \<Rightarrow> int \<Rightarrow> nat option \<Rightarrow> store" where
  "GiveOwnership B s node begin_rank parent =
     (if gives_ownership B (s_nodes s) node parent
      then s\<lparr>s_given := s_given s @ [(Blockid B (node_begin node), begin_rank)]\<rparr>
      else s)"

text \<open>Lines 305 to 319: the goal index of a node with more points than a chunk.\<close>

definition uint64 :: "int \<Rightarrow> int" where
  "uint64 x = x mod 2 ^ 64"

text \<open>
  Modelled from the spec: \<open>base/basic_types.h\<close> is not part of the sources. \<open>index_t\<close> is
  \<open>int\<close>, a signed integer of 32 bits; \<open>to_index_t\<close> is the value that 32 bits in two's
  complement keep of an integer.
\<close>

definition to_index_t :: "int \<Rightarrow> int" where
  "to_index_t x = (x + 2 ^ 31) mod 2 ^ 32 - 2 ^ 31"

definition median_goal :: "int \<Rightarrow> int \<Rightarrow> int" where
  "median_goal begin_col end_col = to_index_t (begin_col + end_col) sdiv 2"

definition rank_goal :: "int \<Rightarrow> int \<Rightarrow> int \<Rightarrow> int" where
  "rank_goal split_rank n peers =
     to_index_t
       (uint64 (uint64 (uint64 (uint64 split_rank * 2) * uint64 n) + uint64 peers)
          div uint64 peers div 2)"

definition round_to_chunk :: "int \<Rightarrow> int \<Rightarrow> int" where
  "round_to_chunk goal_col chunk =
     to_index_t (to_index_t (to_index_t (goal_col + chunk sdiv 2) sdiv chunk) * chunk)"

definition goal_col_of :: "builder \<Rightarrow> int \<Rightarrow> int \<Rightarrow> int \<Rightarrow> int \<Rightarrow> error + int" where
  "goal_col_of B begin_col end_col begin_rank end_rank =
     (if end_rank \<le> begin_rank + 1
      then (if chunk_size B = 0 then Inl DivisionByZero
            else Inr (round_to_chunk (median_goal begin_col end_col) (chunk_size B)))
      else (if uint64 (n_peers B) = 0 \<or> chunk_size B = 0 then Inl DivisionByZero
            else Inr (round_to_chunk
                   (rank_goal ((begin_rank + end_rank) sdiv 2) (n_points B) (n_peers B))
                   (chunk_size B))))"

text \<open>
  What the first part of \<open>Split_\<close> hands to the two calls of \<open>Build_\<close>: the split index, the
  local \<open>begin_col\<close> and \<open>end_col\<close> as they are after the loop, the point cache and the two
  final bounds.
\<close>

record split_result =
  split_col :: int
  begin_col :: int
  end_col :: int
  split_points :: "Vector list"
  final_left_bound :: Bound
  final_right_bound :: Bound

text \<open>
  Lines 321 to 361, the loop of the interpolation search. \<open>Split_step\<close> is one iteration
  of the loop: it leaves the loop with the split (\<open>Exit\<close>), goes on to the next iteration
  with a new \<open>begin_col\<close>, \<open>end_col\<close>, \<open>current_range\<close>, point cache and final bounds
  (\<open>Continue\<close>), or fails. The two bounds \<open>left_bound\<close> and \<open>right_bound\<close> are reset at the start
  of every iteration, so \<open>Partition\<close> starts from \<open>Init (dim B)\<close>. The quotient of the
  interpolation factor is a \<open>double\<close> division: by zero it is an infinity or a NaN, where
  the model stops with \<open>FloatDivisionByZero\<close>.
\<close>

datatype step =
    Exit split_result
  | Continue int int DRange "Vector list" Bound Bound
  | Fail error

definition Split_step ::
    "builder \<Rightarrow> int \<Rightarrow> int \<Rightarrow> int \<Rightarrow> int \<Rightarrow> DRange \<Rightarrow> Vector list \<Rightarrow> Bound \<Rightarrow> Bound \<Rightarrow> step" where
  "Split_step B split_dim goal_col bc ec current_range ps flb frb =
     (if ec - bc = 0 then Fail FloatDivisionByZero
      else
        let split_val = interpolate current_range
              (real_of_int (goal_col - bc) / real_of_int (ec - bc)) in
        case Partition (HrectPartitionCondition split_dim split_val) bc (ec - bc) ps
               (Init (dim B)) (Init (dim B)) of
          Inl e \<Rightarrow> Fail e
        | Inr (sc, ps', left_bound, right_bound) \<Rightarrow>
            (if sc = goal_col then
              Exit \<lparr>split_col = sc, begin_col = bc, end_col = ec, split_points = ps',
                final_left_bound = bound_union flb left_bound,
                final_right_bound = bound_union frb right_bound\<rparr>
            else if sc < goal_col then
              (let flb' = bound_union flb left_bound in
               (case get right_bound split_dim of
                 Inl e \<Rightarrow> Fail e
               | Inr cr \<Rightarrow>
                   if width cr = 0 then
                     Exit \<lparr>split_col = goal_col, begin_col = bc, end_col = ec,
                       split_points = ps',
                       final_left_bound = bound_union flb' right_bound,
                       final_right_bound = bound_union frb right_bound\<rparr>
                   else Continue sc ec cr ps' flb' frb))
            else
              (let frb' = bound_union frb right_bound in
               (case get left_bound split_dim of
                 Inl e \<Rightarrow> Fail e
               | Inr cr \<Rightarrow>
                   if width cr = 0 then
                     Exit \<lparr>split_col = goal_col, begin_col = bc, end_col = ec,
                       split_points = ps',
                       final_left_bound = bound_union flb left_bound,
                       final_right_bound = bound_union frb' left_bound\<rparr>
                   else Continue bc sc cr ps' flb frb'))))"

text \<open>
  The loop. The first argument bounds the number of iterations: \<open>None\<close> says that the loop
  has not left after that many.
\<close>

fun Split_loop ::
    "nat \<Rightarrow> builder \<Rightarrow> int \<Rightarrow> int \<Rightarrow> int \<Rightarrow> int \<Rightarrow> DRange \<Rightarrow> Vector list \<Rightarrow> Bound \<Rightarrow> Bound
      \<Rightarrow> (error + split_result) option" where
  "Split_loop 0 B split_dim goal_col bc ec current_range ps flb frb = None"
| "Split_loop (Suc n) B split_dim goal_col bc ec current_range ps flb frb =
     (case Split_step B split_dim goal_col bc ec current_range ps flb frb of
        Fail e \<Rightarrow> Some (Inl e)
      | Exit r \<Rightarrow> Some (Inr r)
      | Continue bc' ec' cr ps' flb' frb' \<Rightarrow>
          Split_loop n B split_dim goal_col bc' ec' cr ps' flb' frb')"

text \<open>
  Lines 264 to 274 and 285 to 362 of \<open>Split_\<close>: the choice of the split index, by one
  partition at the midpoint value, by the index midpoint on an axis of zero width, or by
  the loop.
\<close>

definition Split_choose ::
    "nat \<Rightarrow> builder \<Rightarrow> Vector list \<Rightarrow> Node \<Rightarrow> int \<Rightarrow> int \<Rightarrow> int \<Rightarrow> (error + split_result) option" where
  "Split_choose n B ps node begin_rank end_rank split_dim =
     (let bc = node_begin node; ec = node_end node in
      case get (node_bound node) split_dim of
        Inl e \<Rightarrow> Some (Inl e)
      | Inr current_range \<Rightarrow>
          (if node_count node \<le> chunk_size B then
            (let split_val = mid current_range in
             if width current_range = 0 then
               Some (Inr \<lparr>split_col = to_index_t (node_begin node + node_end node) sdiv 2,
                 begin_col = bc, end_col = ec, split_points = ps,
                 final_left_bound = Init (dim B), final_right_bound = Init (dim B)\<rparr>)
             else
               (case Partition (HrectPartitionCondition split_dim split_val) bc (ec - bc) ps
                      (Init (dim B)) (Init (dim B)) of
                 Inl e \<Rightarrow> Some (Inl e)
               | Inr (sc, ps', flb, frb) \<Rightarrow>
                   Some (Inr \<lparr>split_col = sc, begin_col = bc, end_col = ec, split_points = ps',
                     final_left_bound = flb, final_right_bound = frb\<rparr>)))
          else
            (case goal_col_of B bc ec begin_rank end_rank of
              Inl e \<Rightarrow> Some (Inl e)
            | Inr goal_col \<Rightarrow>
                Split_loop n B split_dim goal_col bc ec current_range ps
                  (Init (dim B)) (Init (dim B)))))"

subsection \<open>Build\_ and Split\_\<close>

text \<open>
  \<open>Build\<close> and \<open>Split\<close> are the member functions \<open>Build_\<close> and \<open>Split_\<close> of the source.
  The two functions call each other. The first argument bounds the depth of the recursion
  and the number of iterations of the loop in \<open>Split_\<close>: \<open>None\<close> says that it was not
  enough. \<open>Build_\<close> returns the index of its node, the decomposition node it has written
  through \<open>decomp_pp\<close> (the argument \<open>decomp_pp\<close> says whether that pointer is not \<open>NULL\<close>) and
  the store; \<open>Split_\<close> returns what its two calls of \<open>Build_\<close> have written through
  \<open>left_decomp_pp\<close> and \<open>right_decomp_pp\<close>, and the store. The node under construction lives
  in the node cache, where the calls for its children update its statistic. The assertion
  \<open>DEBUG_SAME_INT\<close> of a leaf is checked in debug builds only and has no effect.
\<close>

text \<open>
  Lines 204 to 206 of \<open>Build_\<close>: the range and the bound are written to the new node. The
  other fields are those of a node that nothing has been written to.
\<close>

definition new_node :: "builder \<Rightarrow> int \<Rightarrow> int \<Rightarrow> Bound \<Rightarrow> Node" where
  "new_node B begin_c end_c bound =
     \<lparr>node_begin = begin_c, node_count = end_c - begin_c,
      node_bound = bound_union (Reset (Init (dim B))) bound,
      node_leaf = False, node_child0 = None, node_child1 = None, node_stat = []\<rparr>"

text \<open>Lines 226 to 233: the node becomes a leaf and accumulates its points.\<close>

definition Build_leaf ::
    "store \<Rightarrow> nat \<Rightarrow> (error + DecompNode option \<times> DecompNode option \<times> store) option" where
  "Build_leaf s node_i =
     (let node = s_nodes s ! node_i in
      case leaf_stat (s_points s) (node_begin node) (node_end node) (node_stat node) of
        Inl e \<Rightarrow> Some (Inl e)
      | Inr st \<Rightarrow>
          Some (Inr (None, None,
            s\<lparr>s_nodes := (s_nodes s)[node_i := node\<lparr>node_leaf := True, node_stat := st\<rparr>]\<rparr>)))"

text \<open>
  Lines 236 to 242: the node's statistic is accumulated into its parent's, then the
  node's own statistic is post-processed.
\<close>

definition accumulate_to_parent :: "store \<Rightarrow> nat \<Rightarrow> nat option \<Rightarrow> store" where
  "accumulate_to_parent s node_i parent =
     (let node = s_nodes s ! node_i in
      case parent of
        None \<Rightarrow> s
      | Some p \<Rightarrow>
          s\<lparr>s_nodes := (s_nodes s)[p := (s_nodes s ! p)
            \<lparr>node_stat := node_stat (s_nodes s ! p) @
               [AccumulateNode (node_stat node) (node_bound node) (node_count node)]\<rparr>]\<rparr>)"

definition postprocess :: "store \<Rightarrow> nat \<Rightarrow> store" where
  "postprocess s node_i =
     (let node = s_nodes s ! node_i in
      s\<lparr>s_nodes := (s_nodes s)[node_i := node
        \<lparr>node_stat := node_stat node @ [Postprocess (node_bound node) (node_count node)]\<rparr>]\<rparr>)"

text \<open>
  Lines 244 to 253: the decomposition node, when \<open>decomp_pp\<close> is not \<open>NULL\<close>; its children are
  set when \<open>left_decomp\<close> is not \<open>NULL\<close>.
\<close>

definition new_decomp ::
    "bool \<Rightarrow> int \<Rightarrow> int \<Rightarrow> nat \<Rightarrow> nat \<Rightarrow> DecompNode option \<Rightarrow> DecompNode option
      \<Rightarrow> DecompNode option" where
  "new_decomp decomp_pp begin_rank end_rank node_i end_index left_decomp right_decomp =
     (if decomp_pp
      then Some (DecompNode begin_rank end_rank node_i end_index
             left_decomp
             (case left_decomp of None \<Rightarrow> None | Some l \<Rightarrow> right_decomp))
      else None)"

definition Build_finish ::
    "nat \<Rightarrow> int \<Rightarrow> int \<Rightarrow> nat option \<Rightarrow> bool \<Rightarrow> DecompNode option \<Rightarrow> DecompNode option \<Rightarrow> store
      \<Rightarrow> nat \<times> DecompNode option \<times> store" where
  "Build_finish node_i begin_rank end_rank parent decomp_pp left_decomp right_decomp s =
     (let s' = postprocess (accumulate_to_parent s node_i parent) node_i in
      (node_i,
       new_decomp decomp_pp begin_rank end_rank node_i (length (s_nodes s'))
         left_decomp right_decomp,
       s'))"

text \<open>\<open>node->set_child(k, c)\<close> on the node at \<open>node_i\<close>, in \<open>Split_\<close>.\<close>

definition set_child :: "nat \<Rightarrow> store \<Rightarrow> nat \<Rightarrow> nat \<Rightarrow> store" where
  "set_child k s node_i c =
     s\<lparr>s_nodes := (s_nodes s)[node_i :=
        (if k = 0 then (s_nodes s ! node_i)\<lparr>node_child0 := Some c\<rparr>
         else (s_nodes s ! node_i)\<lparr>node_child1 := Some c\<rparr>)]\<rparr>"

fun Build ::
    "nat \<Rightarrow> builder \<Rightarrow> store \<Rightarrow> int \<Rightarrow> int \<Rightarrow> int \<Rightarrow> int \<Rightarrow> Bound \<Rightarrow> nat option \<Rightarrow> bool
      \<Rightarrow> (error + nat \<times> DecompNode option \<times> store) option"
  and Split ::
    "nat \<Rightarrow> builder \<Rightarrow> store \<Rightarrow> nat \<Rightarrow> int \<Rightarrow> int \<Rightarrow> int \<Rightarrow> nat option
      \<Rightarrow> (error + DecompNode option \<times> DecompNode option \<times> store) option"
where
  "Build n B s begin_c end_c begin_rank end_rank bound parent decomp_pp =
     (let node_i = length (s_nodes s);
          leaf = (fresh_count B node_i \<le> leaf_size B);
          s1 = s\<lparr>s_nodes := s_nodes s @ [new_node B begin_c end_c bound]\<rparr>
      in
      case (if \<not> leaf
            then Split n B s1 node_i begin_rank end_rank
                   (widest_dim B (node_bound (s_nodes s1 ! node_i))) parent
            else Build_leaf s1 node_i)
      of
        None \<Rightarrow> None
      | Some (Inl e) \<Rightarrow> Some (Inl e)
      | Some (Inr (left_decomp, right_decomp, s2)) \<Rightarrow>
          Some (Inr (Build_finish node_i begin_rank end_rank parent decomp_pp
                       left_decomp right_decomp s2)))"
| "Split 0 B s node_i begin_rank end_rank split_dim parent = None"
| "Split (Suc n) B s node_i begin_rank end_rank split_dim parent =
     (let node = s_nodes s ! node_i;
          split_rank = (begin_rank + end_rank) sdiv 2;
          s1 = GiveOwnership B s node begin_rank parent
      in
      case Split_choose (Suc n) B (s_points s1) node begin_rank end_rank split_dim of
        None \<Rightarrow> None
      | Some (Inl e) \<Rightarrow> Some (Inl e)
      | Some (Inr sp) \<Rightarrow>
          (let decomp_pp = \<not> (end_rank - begin_rank \<le> 1);
               s2 = s1\<lparr>s_points := split_points sp\<rparr>
           in
           (case Build n B s2 (begin_col sp) (split_col sp) begin_rank split_rank
                  (final_left_bound sp) (Some node_i) decomp_pp of
              None \<Rightarrow> None
            | Some (Inl e) \<Rightarrow> Some (Inl e)
            | Some (Inr (c0, left_decomp, s3)) \<Rightarrow>
                (case Build n B (set_child 0 s3 node_i c0) (split_col sp) (end_col sp)
                       split_rank end_rank (final_right_bound sp) (Some node_i) decomp_pp of
                   None \<Rightarrow> None
                 | Some (Inl e) \<Rightarrow> Some (Inl e)
                 | Some (Inr (c1, right_decomp, s5)) \<Rightarrow>
                     Some (Inr (left_decomp, right_decomp, set_child 1 s5 node_i c1))))))"

declare Build.simps [simp del] Split.simps [simp del] Split_loop.simps [simp del]

subsection \<open>Notions used to state the properties\<close>




subsection \<open>What a call of Build and of Split leaves in the node cache\<close>

text \<open>
  \<open>build_post\<close>: the call of \<open>Build\<close> on the store \<open>s\<close> has returned the node index \<open>i\<close> and the
  store \<open>s'\<close>. The node is new, the nodes that were there are as they were, but for the
  parent; the node has the range and the bound it was given; its statistic is some \<open>st\<close>
  without \<open>Postprocess\<close>, followed by one \<open>Postprocess\<close>; and the parent's statistic has
  grown by the \<open>Accumulate\<close> of that \<open>st\<close>.
\<close>

definition no_postprocess :: "Stat \<Rightarrow> bool" where
  "no_postprocess st \<longleftrightarrow> (\<forall>b c. Postprocess b c \<notin> set st)"

definition build_post ::
    "builder \<Rightarrow> store \<Rightarrow> int \<Rightarrow> int \<Rightarrow> Bound \<Rightarrow> nat option \<Rightarrow> nat \<Rightarrow> store \<Rightarrow> bool" where
  "build_post B s bc ec bound parent i s' \<longleftrightarrow>
     i = length (s_nodes s) \<and> i < length (s_nodes s') \<and>
     (\<forall>j<length (s_nodes s). parent \<noteq> Some j \<longrightarrow> s_nodes s' ! j = s_nodes s ! j) \<and>
     node_begin (s_nodes s' ! i) = bc \<and> node_count (s_nodes s' ! i) = ec - bc \<and>
     node_bound (s_nodes s' ! i) = bound_union (Reset (Init (dim B))) bound \<and>
     (\<exists>st. no_postprocess st \<and>
        node_stat (s_nodes s' ! i) =
          st @ [Postprocess (node_bound (s_nodes s' ! i)) (node_count (s_nodes s' ! i))] \<and>
        (\<forall>p. parent = Some p \<longrightarrow>
           s_nodes s' ! p = (s_nodes s ! p)
             \<lparr>node_stat := node_stat (s_nodes s ! p) @
                [AccumulateNode st (node_bound (s_nodes s' ! i)) (node_count (s_nodes s' ! i))]\<rparr>))"

text \<open>
  \<open>split_post\<close>: the call of \<open>Split\<close> for the node at \<open>i\<close> has returned the store \<open>s'\<close>. The other
  nodes that were there are as they were, and the node at \<open>i\<close> has its two children and the
  \<open>Accumulate\<close> of each of them.
\<close>

definition split_post :: "store \<Rightarrow> nat \<Rightarrow> store \<Rightarrow> bool" where
  "split_post s i s' \<longleftrightarrow>
     length (s_nodes s) \<le> length (s_nodes s') \<and>
     (\<forall>j<length (s_nodes s). j \<noteq> i \<longrightarrow> s_nodes s' ! j = s_nodes s ! j) \<and>
     (\<exists>c0 c1 st0 b0 n0 st1 b1 n1.
        s_nodes s' ! i = (s_nodes s ! i)
          \<lparr>node_child0 := Some c0, node_child1 := Some c1,
           node_stat := node_stat (s_nodes s ! i) @
             [AccumulateNode st0 b0 n0, AccumulateNode st1 b1 n1]\<rparr>)"

text \<open>
  A decomposition node is well formed over a node cache: it names a node of the cache; it
  has no child, or two; and when it has two, its rank range holds more than one machine
  and is divided at its midpoint between them, and they are the decomposition nodes of
  the two children of its tree node, which come later in the cache.
\<close>

fun decomp_wf :: "Node list \<Rightarrow> DecompNode \<Rightarrow> bool" where
  "decomp_wf ns (DecompNode br er i e c0 c1) \<longleftrightarrow>
     i < length ns \<and>
     (case c0 of
        None \<Rightarrow> c1 = None
      | Some l \<Rightarrow>
          (case c1 of
             None \<Rightarrow> False
           | Some r \<Rightarrow>
               1 < er - br \<and>
               info_begin_rank l = br \<and> info_end_rank l = (br + er) sdiv 2 \<and>
               info_begin_rank r = (br + er) sdiv 2 \<and> info_end_rank r = er \<and>
               node_child0 (ns ! i) = Some (decomp_index l) \<and>
               node_child1 (ns ! i) = Some (decomp_index r) \<and>
               i < decomp_index l \<and> decomp_index l < decomp_index r \<and>
               decomp_wf ns l \<and> decomp_wf ns r))"

text \<open>
  What \<open>Build\<close> returns through \<open>decomp_pp\<close>, and what the two calls of \<open>Build\<close> in \<open>Split\<close> return
  through \<open>left_decomp_pp\<close> and \<open>right_decomp_pp\<close>.
\<close>

definition decomp_built :: "bool \<Rightarrow> int \<Rightarrow> int \<Rightarrow> nat \<Rightarrow> Node list \<Rightarrow> DecompNode option \<Rightarrow> bool" where
  "decomp_built decomp_pp br er i ns d =
     (if decomp_pp
      then (\<exists>dn. d = Some dn \<and> info_begin_rank dn = br \<and> info_end_rank dn = er \<and>
              decomp_index dn = i \<and> decomp_wf ns dn)
      else d = None)"

definition decomp_split ::
    "int \<Rightarrow> int \<Rightarrow> nat \<Rightarrow> Node list \<Rightarrow> DecompNode option \<Rightarrow> DecompNode option \<Rightarrow> bool" where
  "decomp_split br er i ns ld rd =
     (if er - br \<le> 1 then ld = None \<and> rd = None
      else (\<exists>l r. ld = Some l \<and> rd = Some r \<and>
              info_begin_rank l = br \<and> info_end_rank l = (br + er) sdiv 2 \<and>
              info_begin_rank r = (br + er) sdiv 2 \<and> info_end_rank r = er \<and>
              node_child0 (ns ! i) = Some (decomp_index l) \<and>
              node_child1 (ns ! i) = Some (decomp_index r) \<and>
              i < decomp_index l \<and> decomp_index l < decomp_index r \<and>
              decomp_wf ns l \<and> decomp_wf ns r))"

text \<open>The parent that a call of \<open>Build\<close> is given is a node of the cache, or \<open>NULL\<close>.\<close>

definition parent_ok :: "store \<Rightarrow> nat option \<Rightarrow> bool" where
  "parent_ok s parent = (case parent of None \<Rightarrow> True | Some p \<Rightarrow> p < length (s_nodes s))"

text \<open>
  A point lies in a bound when each of its coordinates lies in the interval of its
  dimension.
\<close>

definition in_bound :: "Bound \<Rightarrow> Vector \<Rightarrow> bool" where
  "in_bound b v \<longleftrightarrow> list_all (\<lambda>k. lo (b ! k) \<le> v ! k \<and> v ! k \<le> hi (b ! k)) [0..<length b]"

text \<open>
  Used in the proofs about bounds: the set of the points at the indices \<open>[b, e)\<close>, and a
  bound extended by a finite set of points.
\<close>

definition seg :: "Vector list \<Rightarrow> int \<Rightarrow> int \<Rightarrow> Vector set" where
  "seg ps b e = (\<lambda>i. ps ! nat i) ` {b..<e}"

definition ext_range :: "DRange \<Rightarrow> real set \<Rightarrow> DRange" where
  "ext_range r X = \<lparr>lo = Min (insert (lo r) X), hi = Max (insert (hi r) X)\<rparr>"

definition ext :: "Bound \<Rightarrow> Vector set \<Rightarrow> Bound" where
  "ext b S = map (\<lambda>k. ext_range (b ! k) ((\<lambda>v. v ! k) ` S)) [0..<length b]"

subsection \<open>The ownership that a finished build has given away\<close>




subsection \<open>Reading the result of a build\<close>

definition finished :: "(error + nat \<times> DecompNode option \<times> store) option \<Rightarrow> bool" where
  "finished r = (case r of Some (Inr x) \<Rightarrow> True | Some (Inl e) \<Rightarrow> False | None \<Rightarrow> False)"

definition built_nodes :: "(error + nat \<times> DecompNode option \<times> store) option \<Rightarrow> Node list" where
  "built_nodes r = (case r of Some (Inr (i, d, s)) \<Rightarrow> s_nodes s | Some (Inl e) \<Rightarrow> [] | None \<Rightarrow> [])"

definition built_points :: "(error + nat \<times> DecompNode option \<times> store) option \<Rightarrow> Vector list" where
  "built_points r = (case r of Some (Inr (i, d, s)) \<Rightarrow> s_points s | Some (Inl e) \<Rightarrow> [] | None \<Rightarrow> [])"

definition built_given :: "(error + nat \<times> DecompNode option \<times> store) option \<Rightarrow> (int \<times> int) list" where
  "built_given r = (case r of Some (Inr (i, d, s)) \<Rightarrow> s_given s | Some (Inl e) \<Rightarrow> [] | None \<Rightarrow> [])"

definition built_decomp :: "(error + nat \<times> DecompNode option \<times> store) option \<Rightarrow> DecompNode option" where
  "built_decomp r = (case r of Some (Inr (i, d, s)) \<Rightarrow> d | Some (Inl e) \<Rightarrow> None | None \<Rightarrow> None)"

text \<open>A store with the points to build over, no node and no ownership given away.\<close>

definition fresh_store :: "Vector list \<Rightarrow> store" where
  "fresh_store ps = \<lparr>s_points = ps, s_nodes = [], s_given = []\<rparr>"

text \<open>
  The bounding box of a list of points in \<open>d\<close> dimensions: in every dimension the least and
  the greatest coordinate. With no point it is the empty bound.
\<close>

fun least :: "real list \<Rightarrow> real \<Rightarrow> real" where
  "least [] m = m"
| "least (x # xs) m = least xs (if x < m then x else m)"

fun greatest :: "real list \<Rightarrow> real \<Rightarrow> real" where
  "greatest [] m = m"
| "greatest (x # xs) m = greatest xs (if x > m then x else m)"

definition bounding_range :: "real list \<Rightarrow> DRange" where
  "bounding_range xs = \<lparr>lo = least xs DBL_MAX, hi = greatest xs (- DBL_MAX)\<rparr>"

definition bounding_box :: "nat \<Rightarrow> Vector list \<Rightarrow> Bound" where
  "bounding_box d pts = map (\<lambda>k. bounding_range (map (\<lambda>v. v ! k) pts)) [0..<d]"

subsection \<open>Concrete builds\<close>

text \<open>
  Four points on a line, blocks of two points, one machine. The node cache hands out a
  first node whose count is above the leaf size and then nodes whose count is below it:
  the root is split and its children are leaves.
\<close>

definition line_points :: "Vector list" where
  "line_points = [[0], [10], [11], [12]]"

definition line_builder :: builder where
  "line_builder = \<lparr>leaf_size = 2, chunk_size = 2, n_points = 4, dim = 1, n_peers = 1,
     fresh_count = (\<lambda>i. if i = 0 then 4 else 0)\<rparr>"

definition line_build :: "(error + nat \<times> DecompNode option \<times> store) option" where
  "line_build = Build 2 line_builder (fresh_store line_points) 0 4 0 1
     (bounding_box 1 line_points) None True"

text \<open>
  Four points in the plane, three of them with the same first coordinate; blocks of two
  points, one machine; the root is split and its children are leaves.
\<close>

definition column_points :: "Vector list" where
  "column_points = [[0, 0], [10, 1], [10, 2], [10, 3]]"

definition column_builder :: builder where
  "column_builder = \<lparr>leaf_size = 2, chunk_size = 2, n_points = 4, dim = 2, n_peers = 1,
     fresh_count = (\<lambda>i. if i = 0 then 4 else 0)\<rparr>"

definition column_build :: "(error + nat \<times> DecompNode option \<times> store) option" where
  "column_build = Build 1 column_builder (fresh_store column_points) 0 4 0 1
     (bounding_box 2 column_points) None True"

text \<open>
  Eight points on a line, leaf size 2, blocks of four points; every node that the node
  cache hands out has the count 0.
\<close>

definition eight_points :: "Vector list" where
  "eight_points = [[3], [1], [2], [0], [7], [5], [6], [4]]"

definition eight_builder :: builder where
  "eight_builder = \<lparr>leaf_size = 2, chunk_size = 4, n_points = 8, dim = 1, n_peers = 1,
     fresh_count = (\<lambda>i. 0)\<rparr>"

definition eight_build :: "nat \<Rightarrow> (error + nat \<times> DecompNode option \<times> store) option" where
  "eight_build n = Build n eight_builder (fresh_store eight_points) 0 8 0 1
     (bounding_box 1 eight_points) None True"

text \<open>
  Four identical points \<open>(5, 5)\<close>, leaf size 1, blocks of one point, one machine. The
  count of the nodes that the node cache hands out is a parameter.
\<close>

definition same_points :: "Vector list" where
  "same_points = [[5, 5], [5, 5], [5, 5], [5, 5]]"

definition same_builder :: "(nat \<Rightarrow> int) \<Rightarrow> builder" where
  "same_builder fc = \<lparr>leaf_size = 1, chunk_size = 1, n_points = 4, dim = 2, n_peers = 1,
     fresh_count = fc\<rparr>"

definition same_build :: "nat \<Rightarrow> (nat \<Rightarrow> int) \<Rightarrow> (error + nat \<times> DecompNode option \<times> store) option" where
  "same_build n fc = Build n (same_builder fc) (fresh_store same_points) 0 4 0 1
     (bounding_box 2 same_points) None True"

text \<open>
  Four points in the plane, three of them with the same second coordinate; leaf size 1,
  blocks of one point, one machine. The nodes 0, 1 and 4 are split, the others are leaves.
\<close>

definition row_points :: "Vector list" where
  "row_points = [[0, - 20], [0, 0], [5, 0], [9, 0]]"

definition row_builder :: builder where
  "row_builder = \<lparr>leaf_size = 1, chunk_size = 1, n_points = 4, dim = 2, n_peers = 1,
     fresh_count = (\<lambda>i. if i = 0 \<or> i = 1 \<or> i = 4 then 2 else 1)\<rparr>"

definition row_build :: "(error + nat \<times> DecompNode option \<times> store) option" where
  "row_build = Build 3 row_builder (fresh_store row_points) 0 4 0 1
     (bounding_box 2 row_points) None True"

text \<open>
  Four points on a line at 0, 1, 2 and 3, leaf size 2, blocks of two points, one machine;
  the root is split and its children are leaves.
\<close>

definition block_points :: "Vector list" where
  "block_points = [[0], [1], [2], [3]]"

definition block_builder :: builder where
  "block_builder = \<lparr>leaf_size = 2, chunk_size = 2, n_points = 4, dim = 1, n_peers = 1,
     fresh_count = (\<lambda>i. if i = 0 then 4 else 2)\<rparr>"

definition block_build :: "(error + nat \<times> DecompNode option \<times> store) option" where
  "block_build = Build 1 block_builder (fresh_store block_points) 0 4 0 1
     (bounding_box 1 block_points) None True"

text \<open>
  Eight points on a line, leaf size 2, blocks of two points, four machines. The nodes 0, 1
  and 4 are split, the others are leaves.
\<close>

definition ranks_points :: "Vector list" where
  "ranks_points = [[0], [1], [2], [3], [4], [5], [6], [7]]"

definition ranks_builder :: builder where
  "ranks_builder = \<lparr>leaf_size = 2, chunk_size = 2, n_points = 8, dim = 1, n_peers = 4,
     fresh_count = (\<lambda>i. if i = 0 \<or> i = 1 \<or> i = 4 then 4 else 2)\<rparr>"

definition ranks_build :: "(error + nat \<times> DecompNode option \<times> store) option" where
  "ranks_build = Build 3 ranks_builder (fresh_store ranks_points) 0 8 0 4
     (bounding_box 1 ranks_points) None True"

text \<open>
  A store with two points and an open node over them, and the build of a leaf over the
  first point as a child of that node.
\<close>

definition child_builder :: builder where
  "child_builder = \<lparr>leaf_size = 1, chunk_size = 1, n_points = 2, dim = 1, n_peers = 1,
     fresh_count = (\<lambda>i. 0)\<rparr>"

definition child_store :: store where
  "child_store = \<lparr>s_points = [[1], [2]],
     s_nodes = [new_node child_builder 0 2 (bounding_box 1 [[1], [2]])], s_given = []\<rparr>"

definition child_build :: "(error + nat \<times> DecompNode option \<times> store) option" where
  "child_build = Build 0 child_builder child_store 0 1 0 1 (bounding_box 1 [[1]]) (Some 0) False"

section \<open>Proofs\<close>

subsection \<open>Partition\<close>

lemma part_postI:
  assumes "res = Inr (s, ps', lb', rb')" "l \<le> s" "s \<le> r + 1" "length ps' = length ps" "mset ps' = mset ps"
    "\<And>i. l \<le> i \<Longrightarrow> i < s \<Longrightarrow> c (ps' ! nat i)"
    "\<And>i. s \<le> i \<Longrightarrow> i \<le> r \<Longrightarrow> \<not> c (ps' ! nat i)"
    "\<And>i. 0 \<le> i \<Longrightarrow> i < l \<or> r < i \<Longrightarrow> ps' ! nat i = ps ! nat i"
  shows "part_post c ps l r res"
  unfolding part_post_def using assms by blast

lemma part_postE:
  assumes "part_post c ps l r res"
  obtains s ps' lb' rb' where "res = Inr (s, ps', lb', rb')" "l \<le> s" "s \<le> r + 1" "length ps' = length ps" "mset ps' = mset ps"
    "\<And>i. l \<le> i \<Longrightarrow> i < s \<Longrightarrow> c (ps' ! nat i)"
    "\<And>i. s \<le> i \<Longrightarrow> i \<le> r \<Longrightarrow> \<not> c (ps' ! nat i)"
    "\<And>i. 0 \<le> i \<Longrightarrow> i < l \<or> r < i \<Longrightarrow> ps' ! nat i = ps ! nat i"
  using assms unfolding part_post_def by blast

lemma Swap_props:
  assumes "0 \<le> l" "l < r" "r < int (length ps)"
  shows "length (Swap ps l r) = length ps" "mset (Swap ps l r) = mset ps"
    "Swap ps l r ! nat l = ps ! nat r" "Swap ps l r ! nat r = ps ! nat l"
    "0 \<le> i \<Longrightarrow> i \<noteq> l \<Longrightarrow> i \<noteq> r \<Longrightarrow> Swap ps l r ! nat i = ps ! nat i"
  using assms by (auto simp: Swap_def mset_swap nth_list_update)

lemma Partition_loops_post:
  shows "0 \<le> l \<Longrightarrow> r < int (length ps) \<Longrightarrow> l \<le> r + 1 \<Longrightarrow> part_post c ps l r (Partition_left c ps l r lb rb)"
    and "0 \<le> l \<Longrightarrow> r < int (length ps) \<Longrightarrow> l \<le> r + 1 \<Longrightarrow> (l \<le> r \<longrightarrow> \<not> c (ps ! nat l)) \<Longrightarrow>
         part_post c ps l r (Partition_right c ps l r lb rb)"
proof (induction c ps l r lb rb and c ps l r lb rb rule: Partition_left_Partition_right.induct)
  case (1 c ps l r lb rb)
  show ?case
  proof (cases "l > r")
    case True
    then show ?thesis using 1(3-) by (auto simp add: Partition_left.simps part_post_def)
  next
    case False
    then have ic: "in_cache ps l" using 1(3-) by (simp add: in_cache_def)
    show ?thesis
    proof (cases "c (ps ! nat l)")
      case True
      have eq: "Partition_left c ps l r lb rb = Partition_left c ps (l + 1) r (bound_add_vec lb (ps ! nat l)) rb"
        using False ic True by (simp add: Partition_left.simps[of c ps l])
      have "part_post c ps (l + 1) r (Partition_left c ps (l + 1) r (bound_add_vec lb (ps ! nat l)) rb)"
        using 1(2)[OF _ _ refl] False ic True 1(3-) by simp
      then show ?thesis unfolding eq[symmetric]
      proof (elim part_postE)
        fix s ps' lb' rb'
        assume h: "Partition_left c ps l r lb rb = Inr (s, ps', lb', rb')" "l + 1 \<le> s" "s \<le> r + 1"
          "length ps' = length ps" "mset ps' = mset ps"
          "\<And>i. l + 1 \<le> i \<Longrightarrow> i < s \<Longrightarrow> c (ps' ! nat i)"
          "\<And>i. s \<le> i \<Longrightarrow> i \<le> r \<Longrightarrow> \<not> c (ps' ! nat i)"
          "\<And>i. 0 \<le> i \<Longrightarrow> i < l + 1 \<or> r < i \<Longrightarrow> ps' ! nat i = ps ! nat i"
        show ?thesis
        proof (rule part_postI[OF h(1)])
          fix i assume "l \<le> i" "i < s"
          then show "c (ps' ! nat i)" using h(6)[of i] h(8)[of l] True 1(3) by (cases "i = l") auto
        qed (use h in auto)
      qed
    next
      case F2: False
      have "part_post c ps l r (Partition_right c ps l r lb (bound_add_vec rb (ps ! nat l)))"
        using 1(1)[OF _ _ refl] False ic F2 1(3-) by simp
      then show ?thesis using False ic F2
        by (simp add: Partition_left.simps[of c ps l])
    qed
  qed
next
  case (2 c ps l r lb rb)
  show ?case
  proof (cases "l > r")
    case True
    then show ?thesis using 2(3-) by (auto simp add: Partition_right.simps part_post_def)
  next
    case False
    then have ic: "in_cache ps r" using 2(3-) by (simp add: in_cache_def)
    have ncl: "\<not> c (ps ! nat l)" using False 2(6) by simp
    show ?thesis
    proof (cases "c (ps ! nat r)")
      case True
      then have lr: "l < r" using ncl False by (cases "l = r") auto
      note sw = Swap_props[OF 2(3) lr 2(4)]
      have eq: "Partition_right c ps l r lb rb =
          Partition_left c (Swap ps l r) l (r - 1) (bound_add_vec lb (ps ! nat r)) rb"
        using False ic True by (simp add: Partition_right.simps[of c ps l r])
      have "part_post c (Swap ps l r) l (r - 1) (Partition_left c (Swap ps l r) l (r - 1) (bound_add_vec lb (ps ! nat r)) rb)"
        using 2(1)[OF _ _ refl] False ic True 2(3-) lr sw(1) by simp
      then show ?thesis unfolding eq[symmetric]
      proof (elim part_postE)
        fix s ps' lb' rb'
        assume h: "Partition_right c ps l r lb rb = Inr (s, ps', lb', rb')" "l \<le> s" "s \<le> r - 1 + 1"
          "length ps' = length (Swap ps l r)" "mset ps' = mset (Swap ps l r)"
          "\<And>i. l \<le> i \<Longrightarrow> i < s \<Longrightarrow> c (ps' ! nat i)"
          "\<And>i. s \<le> i \<Longrightarrow> i \<le> r - 1 \<Longrightarrow> \<not> c (ps' ! nat i)"
          "\<And>i. 0 \<le> i \<Longrightarrow> i < l \<or> r - 1 < i \<Longrightarrow> ps' ! nat i = Swap ps l r ! nat i"
        show ?thesis
        proof (rule part_postI[OF h(1)])
          fix i assume "s \<le> i" "i \<le> r"
          then show "\<not> c (ps' ! nat i)" using h(7)[of i] h(8)[of r] sw(4) ncl lr 2(3) by (cases "i = r") auto
        next
          fix i assume "0 \<le> i" "i < l \<or> r < i"
          then show "ps' ! nat i = ps ! nat i" using h(8)[of i] sw(5)[of i] lr by auto
        qed (use h sw in auto)
      qed
    next
      case F2: False
      have eq: "Partition_right c ps l r lb rb =
          Partition_right c ps l (r - 1) lb (bound_add_vec rb (ps ! nat r))"
        using False ic F2 by (simp add: Partition_right.simps[of c ps l r])
      have "part_post c ps l (r - 1) (Partition_right c ps l (r - 1) lb (bound_add_vec rb (ps ! nat r)))"
        using 2(2)[OF _ _ refl] False ic F2 2(3-) ncl by simp
      then show ?thesis unfolding eq[symmetric]
      proof (elim part_postE)
        fix s ps' lb' rb'
        assume h: "Partition_right c ps l r lb rb = Inr (s, ps', lb', rb')" "l \<le> s" "s \<le> r - 1 + 1"
          "length ps' = length ps" "mset ps' = mset ps"
          "\<And>i. l \<le> i \<Longrightarrow> i < s \<Longrightarrow> c (ps' ! nat i)"
          "\<And>i. s \<le> i \<Longrightarrow> i \<le> r - 1 \<Longrightarrow> \<not> c (ps' ! nat i)"
          "\<And>i. 0 \<le> i \<Longrightarrow> i < l \<or> r - 1 < i \<Longrightarrow> ps' ! nat i = ps ! nat i"
        show ?thesis
        proof (rule part_postI[OF h(1)])
          fix i assume "s \<le> i" "i \<le> r"
          then show "\<not> c (ps' ! nat i)" using h(7)[of i] h(8)[of r] F2 2(3) h(2) by (cases "i = r") auto
        qed (use h in auto)
      qed
    qed
  qed
qed

lemma length_slice: "0 \<le> b \<Longrightarrow> b \<le> e \<Longrightarrow> e \<le> int (length xs) \<Longrightarrow> length (slice xs b e) = nat (e - b)"
  unfolding slice_def by simp

lemma slice_nth:
  assumes "0 \<le> b" "e \<le> int (length xs)" "b \<le> i" "i < e"
  shows "slice xs b e ! nat (i - b) = xs ! nat i"
proof -
  have 1: "nat b + nat (i - b) = nat i" using assms by linarith
  have 2: "nat (i - b) < nat (e - b)" using assms by linarith
  have 3: "nat b + nat (i - b) \<le> length xs" using assms by linarith
  have "slice xs b e ! nat (i - b) = drop (nat b) xs ! nat (i - b)"
    unfolding slice_def using 2 by (rule nth_take)
  also have "\<dots> = xs ! (nat b + nat (i - b))" using 3 by simp
  finally show ?thesis using 1 by simp
qed

lemma slice_memI:
  assumes "0 \<le> b" "e \<le> int (length xs)" "b \<le> i" "i < e"
  shows "xs ! nat i \<in> set (slice xs b e)"
proof -
  have "nat (i - b) < length (slice xs b e)" using assms by (simp add: length_slice)
  then have "slice xs b e ! nat (i - b) \<in> set (slice xs b e)" by (rule nth_mem)
  then show ?thesis using slice_nth[OF assms] by simp
qed

lemma slice_memD:
  assumes "0 \<le> b" "b \<le> e" "e \<le> int (length xs)" "x \<in> set (slice xs b e)"
  shows "\<exists>i. b \<le> i \<and> i < e \<and> x = xs ! nat i"
proof -
  from assms(4) obtain k where k: "k < length (slice xs b e)" "x = slice xs b e ! k"
    unfolding in_set_conv_nth by blast
  have kk: "int k < e - b" using k(1) assms(1-3) by (simp add: length_slice)
  have "slice xs b e ! nat ((b + int k) - b) = xs ! nat (b + int k)"
    using assms(1,3) kk by (intro slice_nth) linarith+
  then have "x = xs ! nat (b + int k)" using k(2) by simp
  moreover have "b \<le> b + int k" "b + int k < e" using kk by linarith+
  ultimately show ?thesis by blast
qed

lemma split_slices:
  assumes "0 \<le> b" "b \<le> e" "e \<le> int (length xs)"
  shows "xs = take (nat b) xs @ slice xs b e @ drop (nat e) xs"
proof -
  have "drop (nat b) xs = take (nat (e - b)) (drop (nat b) xs) @ drop (nat (e - b)) (drop (nat b) xs)"
    by (rule append_take_drop_id[symmetric])
  moreover have "nat (e - b) + nat b = nat e" using assms by linarith
  then have "drop (nat (e - b)) (drop (nat b) xs) = drop (nat e) xs"
    by (simp only: drop_drop)
  ultimately have "drop (nat b) xs = slice xs b e @ drop (nat e) xs" by (simp only: slice_def)
  moreover have "xs = take (nat b) xs @ drop (nat b) xs" by (rule append_take_drop_id[symmetric])
  ultimately show ?thesis by simp
qed

lemma mset_slice_eq:
  assumes "0 \<le> b" "b \<le> e" "e \<le> int (length xs)" "length ys = length xs" "mset ys = mset xs"
    "\<And>i. 0 \<le> i \<Longrightarrow> i < b \<or> e \<le> i \<Longrightarrow> ys ! nat i = xs ! nat i"
  shows "mset (slice ys b e) = mset (slice xs b e)"
proof -
  have t: "take (nat b) ys = take (nat b) xs"
  proof (intro nth_equalityI, goal_cases)
    case 1 show ?case using assms(4) by simp
  next
    case (2 k)
    then have "k < nat b" by simp
    then have "int k < b" by linarith
    then have "ys ! nat (int k) = xs ! nat (int k)" by (intro assms(6)) simp_all
    then show ?case using 2 by simp
  qed
  have d: "drop (nat e) ys = drop (nat e) xs"
  proof (intro nth_equalityI, goal_cases)
    case 1 show ?case using assms(4) by simp
  next
    case (2 k)
    have "ys ! nat (e + int k) = xs ! nat (e + int k)" using assms(1,2) by (intro assms(6)) linarith+
    moreover have "nat (e + int k) = nat e + k" using assms(1,2) by linarith
    ultimately show ?case using assms(1-4) 2 by simp
  qed
  have "mset ys = mset (take (nat b) ys) + mset (slice ys b e) + mset (drop (nat e) ys)"
    using arg_cong[OF split_slices[of b e ys], of mset] assms(1-4) by simp
  moreover have "mset xs = mset (take (nat b) xs) + mset (slice xs b e) + mset (drop (nat e) xs)"
    using arg_cong[OF split_slices[of b e xs], of mset] assms(1-4) by simp
  ultimately show ?thesis using t d assms(5) by simp
qed


text \<open>
  C1. For a range \<open>[begin, begin + cnt)\<close> inside the cache, with \<open>cnt \<ge> 0\<close>, and any
  predicate, \<open>Partition\<close> returns a split index in \<open>[begin, begin + cnt]\<close>; the points
  outside the range stay where they are and the points inside are permuted; every index of
  the range below the split index holds a point that satisfies the predicate and every
  other index of the range a point that does not. A zero-width range returns \<open>begin\<close> and
  leaves the cache as it is, a range whose points all satisfy the predicate returns
  \<open>begin + cnt\<close>, and a range none of whose points satisfies it returns \<open>begin\<close>.
\<close>

theorem Partition_correct:
  assumes "0 \<le> begin" "0 \<le> cnt" "begin + cnt \<le> int (length points)"
  shows "\<exists>splitIndex points' lb' rb'.
      Partition is_left begin cnt points left_bound right_bound = Inr (splitIndex, points', lb', rb')
    \<and> begin \<le> splitIndex \<and> splitIndex \<le> begin + cnt
    \<and> length points' = length points
    \<and> (\<forall>i. 0 \<le> i \<and> (i < begin \<or> begin + cnt \<le> i) \<longrightarrow> points' ! nat i = points ! nat i)
    \<and> mset (slice points' begin (begin + cnt)) = mset (slice points begin (begin + cnt))
    \<and> (\<forall>i. begin \<le> i \<and> i < splitIndex \<longrightarrow> is_left (points' ! nat i))
    \<and> (\<forall>i. splitIndex \<le> i \<and> i < begin + cnt \<longrightarrow> \<not> is_left (points' ! nat i))
    \<and> (cnt = 0 \<longrightarrow> splitIndex = begin \<and> points' = points)
    \<and> ((\<forall>i. begin \<le> i \<and> i < begin + cnt \<longrightarrow> is_left (points ! nat i)) \<longrightarrow> splitIndex = begin + cnt)
    \<and> ((\<forall>i. begin \<le> i \<and> i < begin + cnt \<longrightarrow> \<not> is_left (points ! nat i)) \<longrightarrow> splitIndex = begin)"
proof -
  let ?e = "begin + cnt"
  have "part_post is_left points begin (?e - 1) (Partition is_left begin cnt points left_bound right_bound)"
    unfolding Partition_def using assms by (intro Partition_loops_post(1)) auto
  then obtain s ps' lb' rb' where h:
    "Partition is_left begin cnt points left_bound right_bound = Inr (s, ps', lb', rb')"
    "begin \<le> s" "s \<le> ?e - 1 + 1" "length ps' = length points" "mset ps' = mset points"
    "\<And>i. begin \<le> i \<Longrightarrow> i < s \<Longrightarrow> is_left (ps' ! nat i)"
    "\<And>i. s \<le> i \<Longrightarrow> i \<le> ?e - 1 \<Longrightarrow> \<not> is_left (ps' ! nat i)"
    "\<And>i. 0 \<le> i \<Longrightarrow> i < begin \<or> ?e - 1 < i \<Longrightarrow> ps' ! nat i = points ! nat i"
    unfolding part_post_def by blast
  have ms: "mset (slice ps' begin ?e) = mset (slice points begin ?e)"
    using assms h(4,5) by (intro mset_slice_eq) (auto intro: h(8))
  then have ss: "set (slice ps' begin ?e) = set (slice points begin ?e)" by (metis set_mset_mset)
  have mem: "\<exists>j. begin \<le> j \<and> j < ?e \<and> ps' ! nat i = points ! nat j" if "begin \<le> i" "i < ?e" for i
  proof -
    have "ps' ! nat i \<in> set (slice ps' begin ?e)"
      using assms h(4) that by (intro slice_memI) simp_all
    then have "ps' ! nat i \<in> set (slice points begin ?e)" by (simp only: ss)
    then show ?thesis using slice_memD[of "begin" ?e points "ps' ! nat i"] assms by simp
  qed
  have c0: "cnt = 0 \<longrightarrow> s = begin \<and> ps' = points"
  proof
    assume "cnt = 0"
    then have "Partition is_left begin cnt points left_bound right_bound = Inr (begin, points, left_bound, right_bound)"
      by (simp add: Partition_def Partition_left.simps[of _ _ "begin" "begin - 1"])
    with h(1) show "s = begin \<and> ps' = points" by simp
  qed
  have call: "s = ?e" if a: "\<forall>i. begin \<le> i \<and> i < ?e \<longrightarrow> is_left (points ! nat i)"
  proof (rule ccontr)
    assume "s \<noteq> ?e"
    then have "s < ?e" using h(3) by simp
    with h(7)[of s] have "\<not> is_left (ps' ! nat s)" by simp
    moreover obtain j where "begin \<le> j" "j < ?e" "ps' ! nat s = points ! nat j"
      using mem[of s] h(2) \<open>s < ?e\<close> by blast
    ultimately show False using a by auto
  qed
  have cnone: "s = begin" if a: "\<forall>i. begin \<le> i \<and> i < ?e \<longrightarrow> \<not> is_left (points ! nat i)"
  proof (rule ccontr)
    assume "s \<noteq> begin"
    then have "begin < s" using h(2) by simp
    with h(6)[of "begin"] have "is_left (ps' ! nat begin)" by simp
    moreover obtain j where "begin \<le> j" "j < ?e" "ps' ! nat begin = points ! nat j"
      using mem[of "begin"] h(3) \<open>begin < s\<close> by auto
    ultimately show False using a by auto
  qed
  show ?thesis
  proof (intro exI conjI)
    show "Partition is_left begin cnt points left_bound right_bound = Inr (s, ps', lb', rb')" by (rule h(1))
    show "begin \<le> s" by (rule h(2))
    show "s \<le> begin + cnt" using h(3) by simp
    show "length ps' = length points" by (rule h(4))
    show "\<forall>i. 0 \<le> i \<and> (i < begin \<or> begin + cnt \<le> i) \<longrightarrow> ps' ! nat i = points ! nat i"
      using h(8) by auto
    show "mset (slice ps' begin (begin + cnt)) = mset (slice points begin (begin + cnt))" by (rule ms)
    show "\<forall>i. begin \<le> i \<and> i < s \<longrightarrow> is_left (ps' ! nat i)" using h(6) by blast
    show "\<forall>i. s \<le> i \<and> i < begin + cnt \<longrightarrow> \<not> is_left (ps' ! nat i)" using h(7) by auto
    show "cnt = 0 \<longrightarrow> s = begin \<and> ps' = points" by (rule c0)
    show "(\<forall>i. begin \<le> i \<and> i < begin + cnt \<longrightarrow> is_left (points ! nat i)) \<longrightarrow> s = begin + cnt"
      using call by blast
    show "(\<forall>i. begin \<le> i \<and> i < begin + cnt \<longrightarrow> \<not> is_left (points ! nat i)) \<longrightarrow> s = begin"
      using cnone by blast
  qed
qed

theorem Partition_correct_witness:
  "(0::int) \<le> 1 \<and> (0::int) \<le> 4 \<and> 1 + 4 \<le> int (length [[9], [7], [2], [8], [1], [0::real]]) \<and>
   (\<exists>splitIndex points' lb' rb'.
      Partition (\<lambda>v. v ! 0 < 5) 1 4 [[9], [7], [2], [8], [1], [0]] (Init 1) (Init 1)
        = Inr (splitIndex, points', lb', rb')
    \<and> mset (slice points' 1 (1 + 4)) = mset (slice [[9], [7], [2], [8], [1], [0]] 1 (1 + 4))
    \<and> (\<forall>i. 1 \<le> i \<and> i < splitIndex \<longrightarrow> points' ! nat i ! 0 < 5)
    \<and> (\<forall>i. splitIndex \<le> i \<and> i < 1 + 4 \<longrightarrow> \<not> points' ! nat i ! 0 < 5))"
proof -
  have h: "(0::int) \<le> 1" "(0::int) \<le> 4" "1 + 4 \<le> int (length [[9], [7], [2], [8], [1], [0::real]])"
    by simp_all
  show ?thesis
    using h Partition_correct[OF h, of "\<lambda>v. v ! 0 < 5" "Init 1" "Init 1"] by blast
qed


subsection \<open>The bounds that Partition returns\<close>

lemma Min_insert_min: "finite X \<Longrightarrow> Min (insert (if d < m then d else m) X) = Min (insert m (insert d X))"
  for d m :: real
  by (cases "X = {}") (auto simp: min_def)

lemma Max_insert_max: "finite X \<Longrightarrow> Max (insert (if d > m then d else m) X) = Max (insert m (insert d X))"
  for d m :: real
  by (cases "X = {}") (auto simp: max_def)

lemma finite_seg [simp]: "finite (seg ps b e)"
  by (simp add: seg_def)

lemma seg_empty [simp]: "e \<le> b \<Longrightarrow> seg ps b e = {}"
  by (simp add: seg_def)

lemma seg_first: "b < e \<Longrightarrow> seg ps b e = insert (ps ! nat b) (seg ps (b + 1) e)"
proof -
  assume "b < e"
  then have "{b..<e} = insert b {b + 1..<e}" by auto
  then show ?thesis by (simp add: seg_def)
qed

lemma seg_last: "b \<le> e \<Longrightarrow> seg ps b (e + 1) = insert (ps ! nat e) (seg ps b e)"
proof -
  assume "b \<le> e"
  then have "{b..<e + 1} = insert e {b..<e}" by auto
  then show ?thesis by (simp add: seg_def)
qed

lemma seg_cong: "(\<And>i. b \<le> i \<Longrightarrow> i < e \<Longrightarrow> ps ! nat i = qs ! nat i) \<Longrightarrow> seg ps b e = seg qs b e"
  by (auto simp: seg_def intro!: image_cong)

lemma seg_memI: "b \<le> i \<Longrightarrow> i < e \<Longrightarrow> ps ! nat i \<in> seg ps b e"
  by (auto simp: seg_def)

lemma set_slice_seg:
  assumes "0 \<le> b" "b \<le> e" "e \<le> int (length ps)"
  shows "set (slice ps b e) = seg ps b e"
proof (intro set_eqI iffI)
  fix x assume "x \<in> set (slice ps b e)"
  from slice_memD[OF assms this] show "x \<in> seg ps b e" by (auto simp: seg_def)
next
  fix x assume "x \<in> seg ps b e"
  then obtain i where "b \<le> i" "i < e" "x = ps ! nat i" by (auto simp: seg_def)
  then show "x \<in> set (slice ps b e)" using slice_memI[OF assms(1,3), of i] by simp
qed

lemma length_ext [simp]: "length (ext b S) = length b"
  by (simp add: ext_def)

lemma length_bound_add_vec [simp]: "length (bound_add_vec b v) = length b"
  by (simp add: bound_add_vec_def)

lemma ext_empty [simp]: "ext b {} = b"
  by (intro nth_equalityI) (simp_all add: ext_def ext_range_def)

lemma ext_range_add: "finite X \<Longrightarrow> ext_range (range_add r d) X = ext_range r (insert d X)"
  unfolding ext_range_def range_add_def by (simp only: DRange.simps Min_insert_min Max_insert_max)

lemma ext_add: "finite S \<Longrightarrow> ext (bound_add_vec b v) S = ext b (insert v S)"
  by (simp add: ext_def bound_add_vec_def ext_range_add)

lemma ext_add_mem: "finite S \<Longrightarrow> v \<in> S \<Longrightarrow> ext (bound_add_vec b v) S = ext b S"
  by (simp add: ext_add insert_absorb)

lemma in_boundD: "in_bound b v \<Longrightarrow> k < length b \<Longrightarrow> lo (b ! k) \<le> v ! k \<and> v ! k \<le> hi (b ! k)"
  by (simp add: in_bound_def list_all_iff)

lemma in_boundI: "(\<And>k. k < length b \<Longrightarrow> lo (b ! k) \<le> v ! k \<and> v ! k \<le> hi (b ! k)) \<Longrightarrow> in_bound b v"
  by (simp add: in_bound_def list_all_iff)

lemma ext_in_bound:
  assumes "finite S" "in_bound b v"
  shows "ext b (insert v S) = ext b S"
proof -
  have "ext_range (b ! k) ((\<lambda>v. v ! k) ` insert v S) = ext_range (b ! k) ((\<lambda>v. v ! k) ` S)"
    if "k < length b" for k
  proof -
    from in_boundD[OF assms(2) that] have le: "lo (b ! k) \<le> v ! k" "v ! k \<le> hi (b ! k)" by auto
    let ?X = "(\<lambda>v. v ! k) ` S"
    have f: "finite ?X" using assms(1) by simp
    have "Min (insert (lo (b ! k)) (insert (v ! k) ?X)) = Min (insert (lo (b ! k)) ?X)"
      using f le(1) by (cases "?X = {}") (auto simp: min_def)
    moreover have "Max (insert (hi (b ! k)) (insert (v ! k) ?X)) = Max (insert (hi (b ! k)) ?X)"
      using f le(2) by (cases "?X = {}") (auto simp: max_def)
    ultimately show ?thesis by (simp add: ext_range_def insert_commute)
  qed
  then show ?thesis by (simp add: ext_def)
qed

lemma in_bound_add_self: "in_bound (bound_add_vec b v) v"
  by (rule in_boundI) (simp add: bound_add_vec_def range_add_def)

lemma in_bound_add_mono: "in_bound b w \<Longrightarrow> in_bound (bound_add_vec b v) w"
  by (rule in_boundI, drule in_boundD) (auto simp add: bound_add_vec_def range_add_def)

lemma least_Min: "least xs m = Min (insert m (set xs))"
proof (induction xs arbitrary: m)
  case Nil then show ?case by simp
next
  case (Cons x xs)
  have "least (x # xs) m = Min (insert (if x < m then x else m) (set xs))" by (simp add: Cons)
  also have "\<dots> = Min (insert m (insert x (set xs)))" by (rule Min_insert_min) simp
  finally show ?case by simp
qed

lemma greatest_Max: "greatest xs m = Max (insert m (set xs))"
proof (induction xs arbitrary: m)
  case Nil then show ?case by simp
next
  case (Cons x xs)
  have "greatest (x # xs) m = Max (insert (if x > m then x else m) (set xs))" by (simp add: Cons)
  also have "\<dots> = Max (insert m (insert x (set xs)))" by (rule Max_insert_max) simp
  finally show ?case by simp
qed

lemma bounding_box_ext: "bounding_box d pts = ext (Init d) (set pts)"
  by (simp add: bounding_box_def ext_def Init_def bounding_range_def ext_range_def
      least_Min greatest_Max InitEmptySet_def)

lemma Partition_left_first:
  assumes "0 \<le> l" "l \<le> r" "r < int (length ps)" "c (ps ! nat l)"
    "Partition_left c ps l r lb rb = Inr (s, ps', lb', rb')"
  shows "l < s \<and> ps' ! nat l = ps ! nat l"
proof -
  have ic: "in_cache ps l" using assms by (simp add: in_cache_def)
  have eq: "Partition_left c ps l r lb rb = Partition_left c ps (l + 1) r (bound_add_vec lb (ps ! nat l)) rb"
    using assms(2,4) ic by (simp add: Partition_left.simps[of c ps l])
  have "part_post c ps (l + 1) r (Partition_left c ps (l + 1) r (bound_add_vec lb (ps ! nat l)) rb)"
    using assms by (intro Partition_loops_post(1)) auto
  then show ?thesis using assms(5) unfolding eq[symmetric]
  proof (elim part_postE)
    fix s2 ps2 lb2 rb2
    assume h: "Partition_left c ps l r lb rb = Inr (s2, ps2, lb2, rb2)" "l + 1 \<le> s2"
      "\<And>i. 0 \<le> i \<Longrightarrow> i < l + 1 \<or> r < i \<Longrightarrow> ps2 ! nat i = ps ! nat i"
    then show ?thesis using assms(5) assms(1) h(3)[of l] by auto
  qed
qed

lemma part_post_keeps:
  assumes "part_post c ps l r (Inr (s, ps', lb', rb'))" "0 \<le> l" "l \<le> r + 1" "r < int (length ps)"
    "l \<le> j" "j \<le> r"
  shows "\<exists>i. l \<le> i \<and> i \<le> r \<and> ps' ! nat i = ps ! nat j"
proof -
  from assms(1) have h: "length ps' = length ps" "mset ps' = mset ps"
    "\<And>i. 0 \<le> i \<Longrightarrow> i < l \<or> r < i \<Longrightarrow> ps' ! nat i = ps ! nat i"
    by (auto elim!: part_postE)
  have ms: "mset (slice ps' l (r + 1)) = mset (slice ps l (r + 1))"
    using assms(2-4) h(1,2) by (intro mset_slice_eq) (auto intro: h(3))
  then have ss: "set (slice ps' l (r + 1)) = set (slice ps l (r + 1))" by (metis set_mset_mset)
  have "ps ! nat j \<in> set (slice ps l (r + 1))"
    using assms by (intro slice_memI) simp_all
  then have "ps ! nat j \<in> set (slice ps' l (r + 1))" by (simp only: ss)
  then show ?thesis using slice_memD[of l "r + 1" ps' "ps ! nat j"] assms(2-4) h(1) by auto
qed

lemma Partition_loops_bounds:
  shows "0 \<le> l \<Longrightarrow> r < int (length ps) \<Longrightarrow> l \<le> r + 1 \<Longrightarrow>
         Partition_left c ps l r lb rb = Inr (s, ps', lb', rb') \<Longrightarrow>
         lb' = ext lb (seg ps' l s) \<and> rb' = ext rb (seg ps' s (r + 1))"
    and "0 \<le> l \<Longrightarrow> r < int (length ps) \<Longrightarrow> l \<le> r + 1 \<Longrightarrow>
         (l \<le> r \<longrightarrow> \<not> c (ps ! nat l) \<and> in_bound rb (ps ! nat l)) \<Longrightarrow>
         Partition_right c ps l r lb rb = Inr (s, ps', lb', rb') \<Longrightarrow>
         lb' = ext lb (seg ps' l s) \<and> rb' = ext rb (seg ps' s (r + 1))"
proof (induction c ps l r lb rb and c ps l r lb rb rule: Partition_left_Partition_right.induct)
  case (1 c ps l r lb rb)
  note run = 1(6)
  show ?case
  proof (cases "l > r")
    case True
    then show ?thesis using run by (auto simp add: Partition_left.simps[of c ps l])
  next
    case False
    then have ic: "in_cache ps l" using 1(3-) by (simp add: in_cache_def)
    show ?thesis
    proof (cases "c (ps ! nat l)")
      case True
      have eq: "Partition_left c ps l r lb rb = Partition_left c ps (l + 1) r (bound_add_vec lb (ps ! nat l)) rb"
        using False ic True by (simp add: Partition_left.simps[of c ps l])
      have ih: "lb' = ext (bound_add_vec lb (ps ! nat l)) (seg ps' (l + 1) s) \<and> rb' = ext rb (seg ps' s (r + 1))"
        using 1(2)[OF _ _ refl] False ic True 1(3-5) run[unfolded eq] by simp
      from Partition_left_first[OF 1(3) _ 1(4) True run] False
      have f: "l < s" "ps' ! nat l = ps ! nat l" by auto
      have "ext (bound_add_vec lb (ps ! nat l)) (seg ps' (l + 1) s) = ext lb (seg ps' l s)"
        using f by (simp add: ext_add seg_first[of l s])
      with ih show ?thesis by simp
    next
      case F2: False
      have eq: "Partition_left c ps l r lb rb = Partition_right c ps l r lb (bound_add_vec rb (ps ! nat l))"
        using False ic F2 by (simp add: Partition_left.simps[of c ps l])
      have ih: "lb' = ext lb (seg ps' l s) \<and> rb' = ext (bound_add_vec rb (ps ! nat l)) (seg ps' s (r + 1))"
        using 1(1)[OF _ _ refl] False ic F2 1(3-5) run[unfolded eq] in_bound_add_self by simp
      have pp: "part_post c ps l r (Inr (s, ps', lb', rb'))"
        using Partition_loops_post(1)[OF 1(3,4,5), of c lb rb] run by simp
      from part_post_keeps[OF pp 1(3) 1(5) 1(4), of l] False
      obtain i where i: "l \<le> i" "i \<le> r" "ps' ! nat i = ps ! nat l" by auto
      have "s \<le> i"
      proof (rule ccontr)
        assume "\<not> s \<le> i"
        then have "c (ps' ! nat i)" using pp i(1) by (auto elim!: part_postE)
        then show False using i(3) F2 by simp
      qed
      then have "ps ! nat l \<in> seg ps' s (r + 1)" using seg_memI[of s i "r + 1" ps'] i by simp
      then have "ext (bound_add_vec rb (ps ! nat l)) (seg ps' s (r + 1)) = ext rb (seg ps' s (r + 1))"
        by (simp add: ext_add_mem)
      with ih show ?thesis by simp
    qed
  qed
next
  case (2 c ps l r lb rb)
  note run = 2(7)
  show ?case
  proof (cases "l > r")
    case True
    then show ?thesis using run by (auto simp add: Partition_right.simps[of c ps l])
  next
    case False
    then have ic: "in_cache ps r" using 2(3-) by (simp add: in_cache_def)
    have ncl: "\<not> c (ps ! nat l)" and inb: "in_bound rb (ps ! nat l)" using False 2(6) by simp_all
    show ?thesis
    proof (cases "c (ps ! nat r)")
      case True
      then have lr: "l < r" using ncl False by (cases "l = r") auto
      note sw = Swap_props[OF 2(3) lr 2(4)]
      have eq: "Partition_right c ps l r lb rb =
          Partition_left c (Swap ps l r) l (r - 1) (bound_add_vec lb (ps ! nat r)) rb"
        using False ic True by (simp add: Partition_right.simps[of c ps l r])
      have ih: "lb' = ext (bound_add_vec lb (ps ! nat r)) (seg ps' l s) \<and> rb' = ext rb (seg ps' s (r - 1 + 1))"
        using 2(1)[OF _ _ refl] False ic True 2(3-5) lr sw(1) run[unfolded eq] by simp
      have run2: "Partition_left c (Swap ps l r) l (r - 1) (bound_add_vec lb (ps ! nat r)) rb = Inr (s, ps', lb', rb')"
        using run eq by simp
      have "l < s \<and> ps' ! nat l = Swap ps l r ! nat l"
        using lr 2(3,4) sw(1,3) True by (intro Partition_left_first[OF _ _ _ _ run2]) auto
      then have f: "l < s" "ps' ! nat l = ps ! nat r" using sw(3) by auto
      have pp: "part_post c (Swap ps l r) l (r - 1) (Inr (s, ps', lb', rb'))"
        using Partition_loops_post(1)[of l "r - 1" "Swap ps l r" c "bound_add_vec lb (ps ! nat r)" rb]
          run2 2(3,4) lr sw(1) by simp
      then have sr: "s \<le> r" and last: "ps' ! nat r = ps ! nat l"
        using sw(4) 2(3) lr by (auto elim!: part_postE)
      have "ps ! nat r \<in> seg ps' l s" using seg_memI[of l l s ps'] f by simp
      then have 1: "ext (bound_add_vec lb (ps ! nat r)) (seg ps' l s) = ext lb (seg ps' l s)"
        by (simp add: ext_add_mem)
      have 2: "ext rb (seg ps' s (r + 1)) = ext rb (seg ps' s r)"
        using sr last inb by (simp add: seg_last ext_in_bound)
      from ih 1 2 show ?thesis by simp
    next
      case F2: False
      have eq: "Partition_right c ps l r lb rb =
          Partition_right c ps l (r - 1) lb (bound_add_vec rb (ps ! nat r))"
        using False ic F2 by (simp add: Partition_right.simps[of c ps l r])
      have run2: "Partition_right c ps l (r - 1) lb (bound_add_vec rb (ps ! nat r)) = Inr (s, ps', lb', rb')"
        using run eq by simp
      have ih: "lb' = ext lb (seg ps' l s) \<and> rb' = ext (bound_add_vec rb (ps ! nat r)) (seg ps' s (r - 1 + 1))"
        using 2(2)[OF _ _ refl] False ic F2 2(3-5) ncl run2 in_bound_add_mono[OF inb] by simp
      have pp: "part_post c ps l (r - 1) (Inr (s, ps', lb', rb'))"
        using Partition_loops_post(2)[of l "r - 1" ps c lb "bound_add_vec rb (ps ! nat r)"]
          run2 2(3,4) False ncl by simp
      then have sr: "s \<le> r" and last: "ps' ! nat r = ps ! nat r"
        using 2(3) False by (auto elim!: part_postE)
      have "ext (bound_add_vec rb (ps ! nat r)) (seg ps' s r) = ext rb (seg ps' s (r + 1))"
        using sr last by (simp add: seg_last ext_add)
      with ih show ?thesis by simp
    qed
  qed
qed

lemma part_post_seg:
  assumes "part_post c ps l r (Inr (s, ps', lb', rb'))" "0 \<le> l" "l \<le> r + 1" "r < int (length ps)"
  shows "seg ps' l (r + 1) = seg ps l (r + 1)"
proof -
  from assms(1) have h: "length ps' = length ps" "mset ps' = mset ps"
    "\<And>i. 0 \<le> i \<Longrightarrow> i < l \<or> r < i \<Longrightarrow> ps' ! nat i = ps ! nat i"
    by (auto elim!: part_postE)
  have ms: "mset (slice ps' l (r + 1)) = mset (slice ps l (r + 1))"
    using assms(2-4) h(1,2) by (intro mset_slice_eq) (auto intro: h(3))
  then have ss: "set (slice ps' l (r + 1)) = set (slice ps l (r + 1))" by (metis set_mset_mset)
  then show ?thesis using assms(2-4) h(1) by (simp add: set_slice_seg)
qed

lemma Partition_bounds:
  assumes "0 \<le> b" "0 \<le> cnt" "b + cnt \<le> int (length ps)"
    "Partition c b cnt ps (Init d) (Init d) = Inr (s, ps', L, R)"
  shows "L = bounding_box d (slice ps' b s)" "R = bounding_box d (slice ps' s (b + cnt))"
    "b \<le> s" "s \<le> b + cnt" "length ps' = length ps"
    "\<And>i. b \<le> i \<Longrightarrow> i < s \<Longrightarrow> c (ps' ! nat i)"
    "\<And>i. s \<le> i \<Longrightarrow> i < b + cnt \<Longrightarrow> \<not> c (ps' ! nat i)"
    "seg ps' b (b + cnt) = seg ps b (b + cnt)"
proof -
  have run: "Partition_left c ps b (b + cnt - 1) (Init d) (Init d) = Inr (s, ps', L, R)"
    using assms(4) by (simp add: Partition_def)
  have pp: "part_post c ps b (b + cnt - 1) (Inr (s, ps', L, R))"
    using Partition_loops_post(1)[of b "b + cnt - 1" ps c "Init d" "Init d"] assms(1-3) run by simp
  from pp show s: "b \<le> s" "s \<le> b + cnt" and len: "length ps' = length ps"
    by (auto elim!: part_postE)
  from pp show "\<And>i. b \<le> i \<Longrightarrow> i < s \<Longrightarrow> c (ps' ! nat i)"
    by (auto elim!: part_postE)
  from pp show "\<And>i. s \<le> i \<Longrightarrow> i < b + cnt \<Longrightarrow> \<not> c (ps' ! nat i)"
    by (elim part_postE) auto
  from part_post_seg[OF pp] assms(1-3) show "seg ps' b (b + cnt) = seg ps b (b + cnt)" by simp
  have "L = ext (Init d) (seg ps' b s) \<and> R = ext (Init d) (seg ps' s (b + cnt - 1 + 1))"
    using assms(1-3) by (intro Partition_loops_bounds(1)[OF _ _ _ run]) auto
  then show "L = bounding_box d (slice ps' b s)" "R = bounding_box d (slice ps' s (b + cnt))"
    using s len assms(1-3) by (simp_all add: bounding_box_ext set_slice_seg)
qed

lemma length_bounding_box [simp]: "length (bounding_box d pts) = d"
  by (simp add: bounding_box_def)

lemma length_bound_union [simp]: "length (bound_union a b) = length a"
  by (simp add: bound_union_def)

lemma length_Init [simp]: "length (Init d) = d"
  by (simp add: Init_def)

lemma least_le: "least xs m \<le> m"
  by (simp add: least_Min)

lemma greatest_ge: "m \<le> greatest xs m"
  by (simp add: greatest_Max)

lemma bound_union_Init: "bound_union (Init d) (bounding_box d pts) = bounding_box d pts"
proof (intro nth_equalityI, goal_cases)
  case 1 show ?case by simp
next
  case (2 k)
  then have k: "k < d" by simp
  have "least (map (\<lambda>v. v ! k) pts) DBL_MAX \<le> DBL_MAX" by (rule least_le)
  moreover have "- DBL_MAX \<le> greatest (map (\<lambda>v. v ! k) pts) (- DBL_MAX)" by (rule greatest_ge)
  ultimately show ?case using k
    by (simp add: bound_union_def Init_def bounding_box_def bounding_range_def range_union_def
        InitEmptySet_def)
qed

lemma in_bound_bounding_box: "v \<in> set pts \<Longrightarrow> in_bound (bounding_box d pts) v"
  by (rule in_boundI) (simp add: bounding_box_def bounding_range_def least_Min greatest_Max)

lemma in_bound_union1: "in_bound a v \<Longrightarrow> in_bound (bound_union a b) v"
  by (rule in_boundI, drule in_boundD) (auto simp: bound_union_def range_union_def)

lemma in_bound_union2: "length a = length b \<Longrightarrow> in_bound b v \<Longrightarrow> in_bound (bound_union a b) v"
  by (rule in_boundI, drule in_boundD) (auto simp: bound_union_def range_union_def)

lemma get_Inr: "get b d = Inr r \<Longrightarrow> r = b ! nat d \<and> 0 \<le> d \<and> d < int (length b)"
  by (auto simp: get_def split: if_splits)

subsection \<open>The goal index\<close>








text \<open>
  Where the sum of the two indices does not fit 32 bits the goal is not the index
  midpoint: for \<open>begin_col = 2 ^ 30\<close> and \<open>end_col = 2 ^ 30 + 8\<close> the sum wraps around.
\<close>

lemma goal_col_of_wraps:
  "goal_col_of \<lparr>leaf_size = 32, chunk_size = 4, n_points = 100, dim = 1, n_peers = 1,
      fresh_count = (\<lambda>i. 0)\<rparr> (2 ^ 30) (2 ^ 30 + 8) 0 1 = Inr (- 1073741816)"
  by (simp add: goal_col_of_def median_goal_def round_to_chunk_def to_index_t_def
      signed_divide_int_def)



subsection \<open>The concrete builds, evaluated\<close>

lemmas build_eval =
  Build.simps Split.simps new_node_def Build_leaf_def accumulate_to_parent_def
  postprocess_def new_decomp_def Build_finish_def set_child_def Split_choose_def Split_loop.simps Split_step_def
  Partition_def Partition_left.simps Partition_right.simps in_cache_def Swap_def
  bound_add_vec_def bound_union_def range_add_def range_union_def Init_def Reset_def
  InitEmptySet_def DBL_MAX_def Let_def get_def widest_dim_def widest_step_def leaf_stat_def
  HrectPartitionCondition_def begins_block_def Blockid_def gives_ownership_def
  GiveOwnership_def uint64_def to_index_t_def median_goal_def rank_goal_def round_to_chunk_def
  goal_col_of_def width_def mid_def interpolate_def node_end_def fresh_store_def
  bounding_range_def bounding_box_def signed_divide_int_def upto.simps eval_nat_numeral

lemmas example_defs =
  line_points_def line_builder_def line_build_def column_points_def column_builder_def
  column_build_def eight_points_def eight_builder_def eight_build_def same_points_def
  same_builder_def same_build_def row_points_def row_builder_def row_build_def
  block_points_def block_builder_def block_build_def ranks_points_def ranks_builder_def
  ranks_build_def child_builder_def child_store_def child_build_def

lemma line_build_eval:
  "line_build =
     Some (Inr (0, Some (DecompNode 0 1 0 3 None None), \<lparr>s_points = [[0], [10], [11],
     [12]], s_nodes = [\<lparr>node_begin = 0, node_count = 4, node_bound = [\<lparr>lo = 0,
     hi = 12\<rparr>], node_leaf = False, node_child0 = Some 1, node_child1 = Some 2,
     node_stat = [AccumulateNode [AccumulatePoint [10]] [\<lparr>lo = 0, hi = 10\<rparr>] 1,
     AccumulateNode [AccumulatePoint [11], AccumulatePoint [12]] [\<lparr>lo = 11, hi =
     12\<rparr>] 2, Postprocess [\<lparr>lo = 0, hi = 12\<rparr>] 4]\<rparr>,
     \<lparr>node_begin = 1, node_count = 1, node_bound = [\<lparr>lo = 0, hi = 10\<rparr>],
     node_leaf = True, node_child0 = None, node_child1 = None, node_stat = [AccumulatePoint
     [10], Postprocess [\<lparr>lo = 0, hi = 10\<rparr>] 1]\<rparr>, \<lparr>node_begin = 2,
     node_count = 2, node_bound = [\<lparr>lo = 11, hi = 12\<rparr>], node_leaf = True,
     node_child0 = None, node_child1 = None, node_stat = [AccumulatePoint [11],
     AccumulatePoint [12], Postprocess [\<lparr>lo = 11, hi = 12\<rparr>] 2]\<rparr>],
     s_given = [(0, 0)]\<rparr>))"
  by (simp add: example_defs build_eval)

lemma column_build_eval:
  "column_build =
     Some (Inr (0, Some (DecompNode 0 1 0 3 None None), \<lparr>s_points = [[0, 0], [10, 1],
     [10, 2], [10, 3]], s_nodes = [\<lparr>node_begin = 0, node_count = 4, node_bound =
     [\<lparr>lo = 0, hi = 10\<rparr>, \<lparr>lo = 0, hi = 3\<rparr>], node_leaf = False,
     node_child0 = Some 1, node_child1 = Some 2, node_stat = [AccumulateNode
     [AccumulatePoint [0, 0], AccumulatePoint [10, 1]] [\<lparr>lo = 0, hi = 10\<rparr>,
     \<lparr>lo = 0, hi = 3\<rparr>] 2, AccumulateNode [AccumulatePoint [10, 2],
     AccumulatePoint [10, 3]] [\<lparr>lo = 10, hi = 10\<rparr>, \<lparr>lo = 1, hi =
     3\<rparr>] 2, Postprocess [\<lparr>lo = 0, hi = 10\<rparr>, \<lparr>lo = 0, hi =
     3\<rparr>] 4]\<rparr>, \<lparr>node_begin = 0, node_count = 2, node_bound = [\<lparr>lo
     = 0, hi = 10\<rparr>, \<lparr>lo = 0, hi = 3\<rparr>], node_leaf = True, node_child0 =
     None, node_child1 = None, node_stat = [AccumulatePoint [0, 0], AccumulatePoint [10, 1],
     Postprocess [\<lparr>lo = 0, hi = 10\<rparr>, \<lparr>lo = 0, hi = 3\<rparr>]
     2]\<rparr>, \<lparr>node_begin = 2, node_count = 2, node_bound = [\<lparr>lo = 10, hi =
     10\<rparr>, \<lparr>lo = 1, hi = 3\<rparr>], node_leaf = True, node_child0 = None,
     node_child1 = None, node_stat = [AccumulatePoint [10, 2], AccumulatePoint [10, 3],
     Postprocess [\<lparr>lo = 10, hi = 10\<rparr>, \<lparr>lo = 1, hi = 3\<rparr>]
     2]\<rparr>], s_given = [(0, 0)]\<rparr>))"
  by (simp add: example_defs build_eval)

lemma eight_build_eval:
  "eight_build n =
     Some (Inr (0, Some (DecompNode 0 1 0 1 None None), \<lparr>s_points = [[3], [1], [2], [0], [7],
     [5], [6], [4]], s_nodes = [\<lparr>node_begin = 0, node_count = 8, node_bound = [\<lparr>lo = 0, hi
     = 7\<rparr>], node_leaf = True, node_child0 = None, node_child1 = None, node_stat =
     [AccumulatePoint [3], AccumulatePoint [1], AccumulatePoint [2], AccumulatePoint [0],
     AccumulatePoint [7], AccumulatePoint [5], AccumulatePoint [6], AccumulatePoint [4],
     Postprocess [\<lparr>lo = 0, hi = 7\<rparr>] 8]\<rparr>], s_given = []\<rparr>))"
  by (simp add: example_defs build_eval)

lemma same_build_0_eval:
  "same_build n (\<lambda>i. 0) =
     Some (Inr (0, Some (DecompNode 0 1 0 1 None None), \<lparr>s_points = [[5, 5], [5, 5],
     [5, 5], [5, 5]], s_nodes = [\<lparr>node_begin = 0, node_count = 4, node_bound =
     [\<lparr>lo = 5, hi = 5\<rparr>, \<lparr>lo = 5, hi = 5\<rparr>], node_leaf = True,
     node_child0 = None, node_child1 = None, node_stat = [AccumulatePoint [5, 5],
     AccumulatePoint [5, 5], AccumulatePoint [5, 5], AccumulatePoint [5, 5], Postprocess
     [\<lparr>lo = 5, hi = 5\<rparr>, \<lparr>lo = 5, hi = 5\<rparr>] 4]\<rparr>], s_given =
     []\<rparr>))"
  by (simp add: example_defs build_eval)

lemma same_build_oracle_eval:
  "same_build 3 (\<lambda>i. if i = 0 \<or> i = 1 \<or> i = 4 then 2 else 1) =
     Some (Inr (0, Some (DecompNode 0 1 0 7 None None), \<lparr>s_points = [[5, 5], [5, 5],
     [5, 5], [5, 5]], s_nodes = [\<lparr>node_begin = 0, node_count = 4, node_bound =
     [\<lparr>lo = 5, hi = 5\<rparr>, \<lparr>lo = 5, hi = 5\<rparr>], node_leaf = False,
     node_child0 = Some 1, node_child1 = Some 4, node_stat = [AccumulateNode [AccumulateNode
     [AccumulatePoint [5, 5]] [\<lparr>lo = 5, hi = 5\<rparr>, \<lparr>lo = 5, hi =
     5\<rparr>] 1, AccumulateNode [AccumulatePoint [5, 5]] [\<lparr>lo = 5, hi = 5\<rparr>,
     \<lparr>lo = 5, hi = 5\<rparr>] 1] [\<lparr>lo = 5, hi = 5\<rparr>, \<lparr>lo = 5, hi
     = 5\<rparr>] 2, AccumulateNode [AccumulateNode [AccumulatePoint [5, 5]] [\<lparr>lo =
     5, hi = 5\<rparr>, \<lparr>lo = 5, hi = 5\<rparr>] 1, AccumulateNode [AccumulatePoint
     [5, 5]] [\<lparr>lo = 5, hi = 5\<rparr>, \<lparr>lo = 5, hi = 5\<rparr>] 1] [\<lparr>lo
     = 5, hi = 5\<rparr>, \<lparr>lo = 5, hi = 5\<rparr>] 2, Postprocess [\<lparr>lo = 5, hi
     = 5\<rparr>, \<lparr>lo = 5, hi = 5\<rparr>] 4]\<rparr>, \<lparr>node_begin = 0,
     node_count = 2, node_bound = [\<lparr>lo = 5, hi = 5\<rparr>, \<lparr>lo = 5, hi =
     5\<rparr>], node_leaf = False, node_child0 = Some 2, node_child1 = Some 3, node_stat =
     [AccumulateNode [AccumulatePoint [5, 5]] [\<lparr>lo = 5, hi = 5\<rparr>, \<lparr>lo =
     5, hi = 5\<rparr>] 1, AccumulateNode [AccumulatePoint [5, 5]] [\<lparr>lo = 5, hi =
     5\<rparr>, \<lparr>lo = 5, hi = 5\<rparr>] 1, Postprocess [\<lparr>lo = 5, hi =
     5\<rparr>, \<lparr>lo = 5, hi = 5\<rparr>] 2]\<rparr>, \<lparr>node_begin = 0,
     node_count = 1, node_bound = [\<lparr>lo = 5, hi = 5\<rparr>, \<lparr>lo = 5, hi =
     5\<rparr>], node_leaf = True, node_child0 = None, node_child1 = None, node_stat =
     [AccumulatePoint [5, 5], Postprocess [\<lparr>lo = 5, hi = 5\<rparr>, \<lparr>lo = 5,
     hi = 5\<rparr>] 1]\<rparr>, \<lparr>node_begin = 1, node_count = 1, node_bound =
     [\<lparr>lo = 5, hi = 5\<rparr>, \<lparr>lo = 5, hi = 5\<rparr>], node_leaf = True,
     node_child0 = None, node_child1 = None, node_stat = [AccumulatePoint [5, 5],
     Postprocess [\<lparr>lo = 5, hi = 5\<rparr>, \<lparr>lo = 5, hi = 5\<rparr>]
     1]\<rparr>, \<lparr>node_begin = 2, node_count = 2, node_bound = [\<lparr>lo = 5, hi =
     5\<rparr>, \<lparr>lo = 5, hi = 5\<rparr>], node_leaf = False, node_child0 = Some 5,
     node_child1 = Some 6, node_stat = [AccumulateNode [AccumulatePoint [5, 5]] [\<lparr>lo
     = 5, hi = 5\<rparr>, \<lparr>lo = 5, hi = 5\<rparr>] 1, AccumulateNode [AccumulatePoint
     [5, 5]] [\<lparr>lo = 5, hi = 5\<rparr>, \<lparr>lo = 5, hi = 5\<rparr>] 1, Postprocess
     [\<lparr>lo = 5, hi = 5\<rparr>, \<lparr>lo = 5, hi = 5\<rparr>] 2]\<rparr>,
     \<lparr>node_begin = 2, node_count = 1, node_bound = [\<lparr>lo = 5, hi = 5\<rparr>,
     \<lparr>lo = 5, hi = 5\<rparr>], node_leaf = True, node_child0 = None, node_child1 =
     None, node_stat = [AccumulatePoint [5, 5], Postprocess [\<lparr>lo = 5, hi = 5\<rparr>,
     \<lparr>lo = 5, hi = 5\<rparr>] 1]\<rparr>, \<lparr>node_begin = 3, node_count = 1,
     node_bound = [\<lparr>lo = 5, hi = 5\<rparr>, \<lparr>lo = 5, hi = 5\<rparr>],
     node_leaf = True, node_child0 = None, node_child1 = None, node_stat = [AccumulatePoint
     [5, 5], Postprocess [\<lparr>lo = 5, hi = 5\<rparr>, \<lparr>lo = 5, hi = 5\<rparr>]
     1]\<rparr>], s_given = [(0, 0), (2, 0)]\<rparr>))"
  by (simp add: example_defs build_eval)

lemma row_build_eval:
  "row_build =
     Some (Inr (0, Some (DecompNode 0 1 0 7 None None), \<lparr>s_points = [[0, - 20], [0,
     0], [5, 0], [9, 0]], s_nodes = [\<lparr>node_begin = 0, node_count = 4, node_bound =
     [\<lparr>lo = 0, hi = 9\<rparr>, \<lparr>lo = - 20, hi = 0\<rparr>], node_leaf = False,
     node_child0 = Some 1, node_child1 = Some 4, node_stat = [AccumulateNode [AccumulateNode
     [AccumulatePoint [0, - 20]] [\<lparr>lo = 0, hi = 0\<rparr>, \<lparr>lo = - 20, hi = -
     20\<rparr>] 1, AccumulateNode [AccumulatePoint [0, 0]] [\<lparr>lo = 0, hi = 0\<rparr>,
     \<lparr>lo = 0, hi = 0\<rparr>] 1] [\<lparr>lo = 0, hi = 9\<rparr>, \<lparr>lo = - 20,
     hi = 0\<rparr>] 2, AccumulateNode [AccumulateNode [AccumulatePoint [5, 0]] [\<lparr>lo
     = 5, hi = 5\<rparr>, \<lparr>lo = 0, hi = 0\<rparr>] 1, AccumulateNode [AccumulatePoint
     [9, 0]] [\<lparr>lo = 9, hi = 9\<rparr>, \<lparr>lo = 0, hi = 0\<rparr>] 1] [\<lparr>lo
     = 0, hi = 9\<rparr>, \<lparr>lo = 0, hi = 0\<rparr>] 2, Postprocess [\<lparr>lo = 0, hi
     = 9\<rparr>, \<lparr>lo = - 20, hi = 0\<rparr>] 4]\<rparr>, \<lparr>node_begin = 0,
     node_count = 2, node_bound = [\<lparr>lo = 0, hi = 9\<rparr>, \<lparr>lo = - 20, hi =
     0\<rparr>], node_leaf = False, node_child0 = Some 2, node_child1 = Some 3, node_stat =
     [AccumulateNode [AccumulatePoint [0, - 20]] [\<lparr>lo = 0, hi = 0\<rparr>, \<lparr>lo
     = - 20, hi = - 20\<rparr>] 1, AccumulateNode [AccumulatePoint [0, 0]] [\<lparr>lo = 0,
     hi = 0\<rparr>, \<lparr>lo = 0, hi = 0\<rparr>] 1, Postprocess [\<lparr>lo = 0, hi =
     9\<rparr>, \<lparr>lo = - 20, hi = 0\<rparr>] 2]\<rparr>, \<lparr>node_begin = 0,
     node_count = 1, node_bound = [\<lparr>lo = 0, hi = 0\<rparr>, \<lparr>lo = - 20, hi = -
     20\<rparr>], node_leaf = True, node_child0 = None, node_child1 = None, node_stat =
     [AccumulatePoint [0, - 20], Postprocess [\<lparr>lo = 0, hi = 0\<rparr>, \<lparr>lo = -
     20, hi = - 20\<rparr>] 1]\<rparr>, \<lparr>node_begin = 1, node_count = 1, node_bound =
     [\<lparr>lo = 0, hi = 0\<rparr>, \<lparr>lo = 0, hi = 0\<rparr>], node_leaf = True,
     node_child0 = None, node_child1 = None, node_stat = [AccumulatePoint [0, 0],
     Postprocess [\<lparr>lo = 0, hi = 0\<rparr>, \<lparr>lo = 0, hi = 0\<rparr>]
     1]\<rparr>, \<lparr>node_begin = 2, node_count = 2, node_bound = [\<lparr>lo = 0, hi =
     9\<rparr>, \<lparr>lo = 0, hi = 0\<rparr>], node_leaf = False, node_child0 = Some 5,
     node_child1 = Some 6, node_stat = [AccumulateNode [AccumulatePoint [5, 0]] [\<lparr>lo
     = 5, hi = 5\<rparr>, \<lparr>lo = 0, hi = 0\<rparr>] 1, AccumulateNode [AccumulatePoint
     [9, 0]] [\<lparr>lo = 9, hi = 9\<rparr>, \<lparr>lo = 0, hi = 0\<rparr>] 1, Postprocess
     [\<lparr>lo = 0, hi = 9\<rparr>, \<lparr>lo = 0, hi = 0\<rparr>] 2]\<rparr>,
     \<lparr>node_begin = 2, node_count = 1, node_bound = [\<lparr>lo = 5, hi = 5\<rparr>,
     \<lparr>lo = 0, hi = 0\<rparr>], node_leaf = True, node_child0 = None, node_child1 =
     None, node_stat = [AccumulatePoint [5, 0], Postprocess [\<lparr>lo = 5, hi = 5\<rparr>,
     \<lparr>lo = 0, hi = 0\<rparr>] 1]\<rparr>, \<lparr>node_begin = 3, node_count = 1,
     node_bound = [\<lparr>lo = 9, hi = 9\<rparr>, \<lparr>lo = 0, hi = 0\<rparr>],
     node_leaf = True, node_child0 = None, node_child1 = None, node_stat = [AccumulatePoint
     [9, 0], Postprocess [\<lparr>lo = 9, hi = 9\<rparr>, \<lparr>lo = 0, hi = 0\<rparr>]
     1]\<rparr>], s_given = [(0, 0), (2, 0)]\<rparr>))"
  by (simp add: example_defs build_eval)


lemma ranks_build_eval:
  "ranks_build =
     Some (Inr (0, Some (DecompNode 0 4 0 7 (Some (DecompNode 0 2 1 4 (Some (DecompNode 0 1
     2 3 None None)) (Some (DecompNode 1 2 3 4 None None)))) (Some (DecompNode 2 4 4 7 (Some
     (DecompNode 2 3 5 6 None None)) (Some (DecompNode 3 4 6 7 None None))))),
     \<lparr>s_points = [[0], [1], [2], [3], [4], [5], [6], [7]], s_nodes =
     [\<lparr>node_begin = 0, node_count = 8, node_bound = [\<lparr>lo = 0, hi = 7\<rparr>],
     node_leaf = False, node_child0 = Some 1, node_child1 = Some 4, node_stat =
     [AccumulateNode [AccumulateNode [AccumulatePoint [0], AccumulatePoint [1]] [\<lparr>lo
     = 0, hi = 1\<rparr>] 2, AccumulateNode [AccumulatePoint [2], AccumulatePoint [3]]
     [\<lparr>lo = 2, hi = 3\<rparr>] 2] [\<lparr>lo = 0, hi = 3\<rparr>] 4, AccumulateNode
     [AccumulateNode [AccumulatePoint [4], AccumulatePoint [5]] [\<lparr>lo = 4, hi =
     5\<rparr>] 2, AccumulateNode [AccumulatePoint [6], AccumulatePoint [7]] [\<lparr>lo =
     6, hi = 7\<rparr>] 2] [\<lparr>lo = 4, hi = 7\<rparr>] 4, Postprocess [\<lparr>lo = 0,
     hi = 7\<rparr>] 8]\<rparr>, \<lparr>node_begin = 0, node_count = 4, node_bound =
     [\<lparr>lo = 0, hi = 3\<rparr>], node_leaf = False, node_child0 = Some 2, node_child1
     = Some 3, node_stat = [AccumulateNode [AccumulatePoint [0], AccumulatePoint [1]]
     [\<lparr>lo = 0, hi = 1\<rparr>] 2, AccumulateNode [AccumulatePoint [2],
     AccumulatePoint [3]] [\<lparr>lo = 2, hi = 3\<rparr>] 2, Postprocess [\<lparr>lo = 0,
     hi = 3\<rparr>] 4]\<rparr>, \<lparr>node_begin = 0, node_count = 2, node_bound =
     [\<lparr>lo = 0, hi = 1\<rparr>], node_leaf = True, node_child0 = None, node_child1 =
     None, node_stat = [AccumulatePoint [0], AccumulatePoint [1], Postprocess [\<lparr>lo =
     0, hi = 1\<rparr>] 2]\<rparr>, \<lparr>node_begin = 2, node_count = 2, node_bound =
     [\<lparr>lo = 2, hi = 3\<rparr>], node_leaf = True, node_child0 = None, node_child1 =
     None, node_stat = [AccumulatePoint [2], AccumulatePoint [3], Postprocess [\<lparr>lo =
     2, hi = 3\<rparr>] 2]\<rparr>, \<lparr>node_begin = 4, node_count = 4, node_bound =
     [\<lparr>lo = 4, hi = 7\<rparr>], node_leaf = False, node_child0 = Some 5, node_child1
     = Some 6, node_stat = [AccumulateNode [AccumulatePoint [4], AccumulatePoint [5]]
     [\<lparr>lo = 4, hi = 5\<rparr>] 2, AccumulateNode [AccumulatePoint [6],
     AccumulatePoint [7]] [\<lparr>lo = 6, hi = 7\<rparr>] 2, Postprocess [\<lparr>lo = 4,
     hi = 7\<rparr>] 4]\<rparr>, \<lparr>node_begin = 4, node_count = 2, node_bound =
     [\<lparr>lo = 4, hi = 5\<rparr>], node_leaf = True, node_child0 = None, node_child1 =
     None, node_stat = [AccumulatePoint [4], AccumulatePoint [5], Postprocess [\<lparr>lo =
     4, hi = 5\<rparr>] 2]\<rparr>, \<lparr>node_begin = 6, node_count = 2, node_bound =
     [\<lparr>lo = 6, hi = 7\<rparr>], node_leaf = True, node_child0 = None, node_child1 =
     None, node_stat = [AccumulatePoint [6], AccumulatePoint [7], Postprocess [\<lparr>lo =
     6, hi = 7\<rparr>] 2]\<rparr>], s_given = [(0, 0), (2, 2)]\<rparr>))"
  by (simp add: example_defs build_eval)

lemma child_build_eval:
  "child_build =
     Some (Inr (1, None, \<lparr>s_points = [[1], [2]], s_nodes = [\<lparr>node_begin = 0,
     node_count = 2, node_bound = [\<lparr>lo = 1, hi = 2\<rparr>], node_leaf = False,
     node_child0 = None, node_child1 = None, node_stat = [AccumulateNode [AccumulatePoint
     [1]] [\<lparr>lo = 1, hi = 1\<rparr>] 1]\<rparr>, \<lparr>node_begin = 0, node_count =
     1, node_bound = [\<lparr>lo = 1, hi = 1\<rparr>], node_leaf = True, node_child0 = None,
     node_child1 = None, node_stat = [AccumulatePoint [1], Postprocess [\<lparr>lo = 1, hi =
     1\<rparr>] 1]\<rparr>], s_given = []\<rparr>))"
  by (simp add: example_defs build_eval)

lemma finished_iff: "finished r \<longleftrightarrow> (\<exists>x. r = Some (Inr x))"
  by (auto simp: finished_def split: option.splits sum.splits)

lemma never_leaf_unfinished:
  assumes "\<And>i. leaf_size B < fresh_count B i"
  shows "\<not> finished (Build n B s bc ec br er bound parent dpp)"
    and "\<forall>x. Split n B s i br er sd parent \<noteq> Some (Inr x)"
proof (induction n arbitrary: s bc ec br er bound parent dpp i sd)
  case 0
  { case 1 show ?case using assms by (simp add: Build.simps finished_iff Split.simps not_le) }
  { case 2 show ?case by (simp add: Split.simps) }
next
  case (Suc n)
  have B: "\<not> finished (Build n B s bc ec br er bound parent dpp)" for s bc ec br er bound parent dpp
    by (rule Suc(1))
  then have B': "Build n B s bc ec br er bound parent dpp \<noteq> Some (Inr x)" for s bc ec br er bound parent dpp x
    unfolding finished_iff by blast
  have S: "Split (Suc n) B s i br er sd parent \<noteq> Some (Inr x)" for s i br er sd parent x
    using B' by (auto simp: Split.simps Let_def split: option.splits sum.splits prod.splits)
  { case 1 show ?case using assms S
      by (auto simp: Build.simps[of "Suc n"] finished_iff Let_def not_le split: option.splits sum.splits prod.splits) }
  { case 2 show ?case using S by blast }
qed


subsection \<open>What the concrete builds show\<close>

lemmas read_build = finished_def built_nodes_def built_points_def built_given_def
  built_decomp_def node_end_def

text \<open>
  C2. In a finished build the two children of a node tile its index range: the first
  child begins where the node begins, the second begins where the first ends, and ends
  where the node ends. The build of \<open>line_build\<close> does otherwise. The root covers the indices
  0 to 4. Its loop partitions twice, the first partition undershoots the goal 2 and moves
  the local \<open>begin_col\<close> to 1, and \<open>Split\<close> builds its children from the local \<open>begin_col\<close> and
  \<open>end_col\<close>: the first child covers the indices 1 to 2, and the point at index 0 is in no
  child.
\<close>

theorem line_build_first_child_skips_prefix:
  "finished line_build \<and>
   node_begin (built_nodes line_build ! 0) = 0 \<and> node_end (built_nodes line_build ! 0) = 4 \<and>
   node_child0 (built_nodes line_build ! 0) = Some 1 \<and>
   node_child1 (built_nodes line_build ! 0) = Some 2 \<and>
   node_begin (built_nodes line_build ! 1) = 1 \<and> node_end (built_nodes line_build ! 1) = 2 \<and>
   node_begin (built_nodes line_build ! 2) = 2 \<and> node_end (built_nodes line_build ! 2) = 4"
  by (simp add: line_build_eval read_build)

text \<open>
  C3, as the specification states it, fails on \<open>column_build\<close>: the loop of the root forces
  the split at the goal 2 and merges the bound of the three points with the first
  coordinate 10 into both children. The first child covers the indices 0 to 2; its bound
  reaches 3 in the second dimension, and the bounding box of its two points reaches 1.
\<close>

theorem column_build_bound_not_exact:
  "finished column_build \<and>
   node_begin (built_nodes column_build ! 1) = 0 \<and> node_end (built_nodes column_build ! 1) = 2 \<and>
   node_bound (built_nodes column_build ! 1) = [\<lparr>lo = 0, hi = 10\<rparr>, \<lparr>lo = 0, hi = 3\<rparr>] \<and>
   bounding_box 2 (slice (built_points column_build) 0 2) = [\<lparr>lo = 0, hi = 10\<rparr>, \<lparr>lo = 0, hi = 1\<rparr>] \<and>
   node_bound (built_nodes column_build ! 1) \<noteq> bounding_box 2 (slice (built_points column_build) 0 2)"
  by (simp add: column_build_eval read_build slice_def bounding_box_def bounding_range_def
      DBL_MAX_def eval_nat_numeral)

text \<open>
  C4. A leaf of a finished build has at most \<open>leaf_size\<close> points and lies in one block, and
  \<open>Build\<close> decides from the point count of its range whether the node is a leaf. \<open>Build\<close>
  reads the count of the node before \<open>set_range\<close> has written it, so the decision does not
  depend on the range: in \<open>eight_build\<close>, where the node cache hands out nodes of count 0, the
  root over 8 points is a leaf, with leaf size 2, and its first and last point are in the
  blocks 0 and 1.
\<close>

theorem eight_build_root_is_leaf:
  "finished (eight_build n) \<and> length (built_nodes (eight_build n)) = 1 \<and>
   node_leaf (built_nodes (eight_build n) ! 0) \<and>
   node_begin (built_nodes (eight_build n) ! 0) = 0 \<and>
   node_count (built_nodes (eight_build n) ! 0) = 8 \<and>
   leaf_size eight_builder = 2 \<and>
   Blockid eight_builder 0 = 0 \<and> Blockid eight_builder (8 - 1) = 1"
  by (simp add: eight_build_eval read_build eight_builder_def Blockid_def signed_divide_int_def)

text \<open>
  C6, as the specification states it, fails on \<open>row_build\<close>: node 4 covers the indices 2 to 4
  and its bound, merged by the forced split of the root, spans 0 to 9 in dimension 0 while
  its points lie at 5 and 9. The first iteration of its loop, with the goal 3, splits at
  the value 4.5, finds no point below it, does not leave the loop and goes on with the
  same \<open>begin_col\<close> and \<open>end_col\<close>.
\<close>

theorem row_build_step_keeps_range:
  "finished row_build \<and> built_points row_build = row_points \<and>
   node_begin (built_nodes row_build ! 4) = 2 \<and> node_end (built_nodes row_build ! 4) = 4 \<and>
   \<not> node_leaf (built_nodes row_build ! 4) \<and>
   node_bound (built_nodes row_build ! 4) = [\<lparr>lo = 0, hi = 9\<rparr>, \<lparr>lo = 0, hi = 0\<rparr>] \<and>
   widest_dim row_builder [\<lparr>lo = 0, hi = 9\<rparr>, \<lparr>lo = 0, hi = 0\<rparr>] = 0 \<and>
   goal_col_of row_builder 2 4 0 1 = Inr 3 \<and>
   Split_step row_builder 0 3 2 4 \<lparr>lo = 0, hi = 9\<rparr> row_points (Init 2) (Init 2)
     = Continue 2 4 \<lparr>lo = 5, hi = 9\<rparr> row_points (Init 2) (Init 2)"
  by (simp add: row_build_eval read_build) (simp add: example_defs build_eval)

text \<open>
  C7. Four identical points with leaf size 1 are built into four leaves of one point
  each. \<open>Build\<close> decides from the count of the node as the node cache hands it out: when
  that count is 0 the root is a leaf with the four points, and when it is above the leaf
  size, whatever the index, no node is a leaf and the build does not finish, whatever the
  bound on the recursion: four levels down a node with an empty bound has no widest
  dimension, and \<open>Split\<close> stops on the read of the bound at \<open>BIG_BAD_NUMBER\<close>.
\<close>

theorem same_build_not_four_leaves:
  "finished (same_build n (\<lambda>i. 0)) \<and> length (built_nodes (same_build n (\<lambda>i. 0))) = 1 \<and>
   node_leaf (built_nodes (same_build n (\<lambda>i. 0)) ! 0) \<and>
   node_count (built_nodes (same_build n (\<lambda>i. 0)) ! 0) = 4 \<and>
   \<not> finished (same_build n (\<lambda>i. 2))"
proof -
  have "\<not> finished (same_build n (\<lambda>i. 2))"
    unfolding same_build_def by (rule never_leaf_unfinished) (simp add: same_builder_def)
  then show ?thesis by (simp add: same_build_0_eval read_build)
qed

text \<open>
  When the counts that the node cache hands out agree with the ranges (2 for the nodes 0,
  1 and 4, and 1 for the others), the same four points are built into the four leaves of
  one point each, with bounds of zero width, that the specification describes.
\<close>

lemma same_build_oracle_leaves:
  "map (\<lambda>node. (node_begin node, node_count node, node_leaf node, node_bound node))
     (built_nodes (same_build 3 (\<lambda>i. if i = 0 \<or> i = 1 \<or> i = 4 then 2 else 1))) =
   [(0, 4, False, [\<lparr>lo = 5, hi = 5\<rparr>, \<lparr>lo = 5, hi = 5\<rparr>]),
    (0, 2, False, [\<lparr>lo = 5, hi = 5\<rparr>, \<lparr>lo = 5, hi = 5\<rparr>]),
    (0, 1, True, [\<lparr>lo = 5, hi = 5\<rparr>, \<lparr>lo = 5, hi = 5\<rparr>]),
    (1, 1, True, [\<lparr>lo = 5, hi = 5\<rparr>, \<lparr>lo = 5, hi = 5\<rparr>]),
    (2, 2, False, [\<lparr>lo = 5, hi = 5\<rparr>, \<lparr>lo = 5, hi = 5\<rparr>]),
    (2, 1, True, [\<lparr>lo = 5, hi = 5\<rparr>, \<lparr>lo = 5, hi = 5\<rparr>]),
    (3, 1, True, [\<lparr>lo = 5, hi = 5\<rparr>, \<lparr>lo = 5, hi = 5\<rparr>])]"
  by (subst same_build_oracle_eval) (simp add: read_build)


subsection \<open>The node cache after Build and Split\<close>

lemma finish_nodes:
  assumes "i < length (s_nodes s)" "\<forall>p. parent = Some p \<longrightarrow> p < length (s_nodes s) \<and> p \<noteq> i"
  defines "s' \<equiv> postprocess (accumulate_to_parent s i parent) i"
  shows "length (s_nodes s') = length (s_nodes s)"
    and "s_nodes s' ! i = (s_nodes s ! i)\<lparr>node_stat := node_stat (s_nodes s ! i) @
            [Postprocess (node_bound (s_nodes s ! i)) (node_count (s_nodes s ! i))]\<rparr>"
    and "\<And>p. parent = Some p \<Longrightarrow> s_nodes s' ! p = (s_nodes s ! p)\<lparr>node_stat := node_stat (s_nodes s ! p) @
            [AccumulateNode (node_stat (s_nodes s ! i)) (node_bound (s_nodes s ! i)) (node_count (s_nodes s ! i))]\<rparr>"
    and "\<And>j. j \<noteq> i \<Longrightarrow> parent \<noteq> Some j \<Longrightarrow> s_nodes s' ! j = s_nodes s ! j"
    and "s_points s' = s_points s" and "s_given s' = s_given s"
proof -
  show "length (s_nodes s') = length (s_nodes s)"
    by (cases parent) (simp_all add: s'_def postprocess_def accumulate_to_parent_def Let_def)
  show "s_nodes s' ! i = (s_nodes s ! i)\<lparr>node_stat := node_stat (s_nodes s ! i) @
            [Postprocess (node_bound (s_nodes s ! i)) (node_count (s_nodes s ! i))]\<rparr>"
    using assms(1,2) by (cases parent) (auto simp: s'_def postprocess_def accumulate_to_parent_def Let_def)
  show "\<And>p. parent = Some p \<Longrightarrow> s_nodes s' ! p = (s_nodes s ! p)\<lparr>node_stat := node_stat (s_nodes s ! p) @
            [AccumulateNode (node_stat (s_nodes s ! i)) (node_bound (s_nodes s ! i)) (node_count (s_nodes s ! i))]\<rparr>"
    using assms(1,2) by (auto simp: s'_def postprocess_def accumulate_to_parent_def Let_def)
  show "\<And>j. j \<noteq> i \<Longrightarrow> parent \<noteq> Some j \<Longrightarrow> s_nodes s' ! j = s_nodes s ! j"
    by (cases parent) (auto simp: s'_def postprocess_def accumulate_to_parent_def Let_def)
  show "s_points s' = s_points s" "s_given s' = s_given s"
    by (cases parent; simp add: s'_def postprocess_def accumulate_to_parent_def Let_def)+
qed

lemma set_child_nodes:
  assumes "i < length (s_nodes s)"
  shows "length (s_nodes (set_child k s i c)) = length (s_nodes s)"
    and "s_nodes (set_child 0 s i c) ! i = (s_nodes s ! i)\<lparr>node_child0 := Some c\<rparr>"
    and "s_nodes (set_child 1 s i c) ! i = (s_nodes s ! i)\<lparr>node_child1 := Some c\<rparr>"
    and "\<And>j. j \<noteq> i \<Longrightarrow> s_nodes (set_child k s i c) ! j = s_nodes s ! j"
    and "s_points (set_child k s i c) = s_points s" and "s_given (set_child k s i c) = s_given s"
  using assms by (simp_all add: set_child_def)

lemma Split_post_step:
  assumes IH: "\<And>s bc ec br er bound p dpp i d s'.
      Build n B s bc ec br er bound (Some p) dpp = Some (Inr (i, d, s')) \<Longrightarrow> p < length (s_nodes s)
      \<Longrightarrow> build_post B s bc ec bound (Some p) i s'"
    and run: "Split (Suc n) B s i br er sd parent = Some (Inr (ld, rd, s'))"
    and i: "i < length (s_nodes s)"
  shows "split_post s i s'"
proof -
  define s1 where "s1 = GiveOwnership B s (s_nodes s ! i) br parent"
  have n1: "s_nodes s1 = s_nodes s" by (simp add: s1_def GiveOwnership_def)
  from run obtain sp c0 s3 c1 s5 dl dr where
    sp: "Split_choose (Suc n) B (s_points s1) (s_nodes s ! i) br er sd = Some (Inr sp)"
    and b0: "Build n B (s1\<lparr>s_points := split_points sp\<rparr>) (begin_col sp) (split_col sp) br
               ((br + er) sdiv 2) (final_left_bound sp) (Some i) (\<not> er - br \<le> 1) = Some (Inr (c0, dl, s3))"
    and b1: "Build n B (set_child 0 s3 i c0) (split_col sp) (end_col sp) ((br + er) sdiv 2) er
               (final_right_bound sp) (Some i) (\<not> er - br \<le> 1) = Some (Inr (c1, dr, s5))"
    and s': "s' = set_child 1 s5 i c1"
    unfolding Split.simps Let_def s1_def[symmetric]
    by (auto split: option.splits sum.splits prod.splits)
  define s2 where "s2 = s1\<lparr>s_points := split_points sp\<rparr>"
  have n2: "s_nodes s2 = s_nodes s" by (simp add: s2_def n1)
  have p0: "build_post B s2 (begin_col sp) (split_col sp) (final_left_bound sp) (Some i) c0 s3"
    using IH[OF b0[folded s2_def]] i n2 by simp
  then obtain st0 where p0':
    "c0 = length (s_nodes s)" "c0 < length (s_nodes s3)"
    "\<And>j. j < length (s_nodes s) \<Longrightarrow> j \<noteq> i \<Longrightarrow> s_nodes s3 ! j = s_nodes s ! j"
    "s_nodes s3 ! i = (s_nodes s ! i)\<lparr>node_stat := node_stat (s_nodes s ! i) @
        [AccumulateNode st0 (node_bound (s_nodes s3 ! c0)) (node_count (s_nodes s3 ! c0))]\<rparr>"
    unfolding build_post_def n2 by auto
  define s4 where "s4 = set_child 0 s3 i c0"
  have i3: "i < length (s_nodes s3)" using i p0'(1,2) by simp
  have sc4: "length (s_nodes s4) = length (s_nodes s3)"
    "s_nodes s4 ! i = (s_nodes s3 ! i)\<lparr>node_child0 := Some c0\<rparr>"
    "\<And>j. j \<noteq> i \<Longrightarrow> s_nodes s4 ! j = s_nodes s3 ! j"
    unfolding s4_def using i3 by (simp_all add: set_child_def)
  have i4: "i < length (s_nodes s4)" using i3 sc4(1) by simp
  have p1: "build_post B s4 (split_col sp) (end_col sp) (final_right_bound sp) (Some i) c1 s5"
    using IH[OF b1[folded s4_def]] i4 by simp
  then obtain st1 where p1':
    "c1 = length (s_nodes s4)" "c1 < length (s_nodes s5)"
    "\<And>j. j < length (s_nodes s4) \<Longrightarrow> j \<noteq> i \<Longrightarrow> s_nodes s5 ! j = s_nodes s4 ! j"
    "s_nodes s5 ! i = (s_nodes s4 ! i)\<lparr>node_stat := node_stat (s_nodes s4 ! i) @
        [AccumulateNode st1 (node_bound (s_nodes s5 ! c1)) (node_count (s_nodes s5 ! c1))]\<rparr>"
    unfolding build_post_def by auto
  have i5: "i < length (s_nodes s5)" using i4 p1'(1,2) by simp
  have sc6: "length (s_nodes s') = length (s_nodes s5)"
    "s_nodes s' ! i = (s_nodes s5 ! i)\<lparr>node_child1 := Some c1\<rparr>"
    "\<And>j. j \<noteq> i \<Longrightarrow> s_nodes s' ! j = s_nodes s5 ! j"
    unfolding s' using i5 by (simp_all add: set_child_def)
  have len: "length (s_nodes s) \<le> length (s_nodes s')"
    using sc6(1) p1'(1,2) sc4(1) p0'(1,2) by simp
  have others: "s_nodes s' ! j = s_nodes s ! j" if "j < length (s_nodes s)" "j \<noteq> i" for j
  proof -
    have "j < length (s_nodes s4)" using that(1) p0'(1,2) sc4(1) by simp
    then show ?thesis using sc6(3)[of j] p1'(3)[of j] sc4(3)[of j] p0'(3)[of j] that by simp
  qed
  have node: "s_nodes s' ! i = (s_nodes s ! i)
      \<lparr>node_child0 := Some c0, node_child1 := Some c1,
       node_stat := node_stat (s_nodes s ! i) @
         [AccumulateNode st0 (node_bound (s_nodes s3 ! c0)) (node_count (s_nodes s3 ! c0)),
          AccumulateNode st1 (node_bound (s_nodes s5 ! c1)) (node_count (s_nodes s5 ! c1))]\<rparr>"
    using sc6(2) sc4(2) by (simp add: p1'(4) p0'(4))
  show ?thesis unfolding split_post_def using len others node by blast
qed

lemma Build_leaf_post:
  assumes "Build_leaf s i = Some (Inr (ld, rd, s'))" "i < length (s_nodes s)"
    "node_stat (s_nodes s ! i) = []"
  shows "length (s_nodes s') = length (s_nodes s)"
    and "\<And>j. j \<noteq> i \<Longrightarrow> s_nodes s' ! j = s_nodes s ! j"
    and "node_begin (s_nodes s' ! i) = node_begin (s_nodes s ! i)"
    and "node_count (s_nodes s' ! i) = node_count (s_nodes s ! i)"
    and "node_bound (s_nodes s' ! i) = node_bound (s_nodes s ! i)"
    and "no_postprocess (node_stat (s_nodes s' ! i))"
    and "ld = None" and "rd = None" and "s_points s' = s_points s" and "s_given s' = s_given s"
    and "node_leaf (s_nodes s' ! i)"
  using assms
  by (auto simp: Build_leaf_def Let_def leaf_stat_def no_postprocess_def
      split: sum.splits if_splits)

lemma Build_post_step:
  assumes IH: "\<And>s i br er sd parent ld rd s'.
      Split n B s i br er sd parent = Some (Inr (ld, rd, s')) \<Longrightarrow> i < length (s_nodes s)
      \<Longrightarrow> split_post s i s'"
    and run: "Build n B s bc ec br er bound parent dpp = Some (Inr (i, d, s'))"
    and par: "\<And>p. parent = Some p \<Longrightarrow> p < length (s_nodes s)"
  shows "build_post B s bc ec bound parent i s'"
proof -
  define i0 where "i0 = length (s_nodes s)"
  define s1 where "s1 = s\<lparr>s_nodes := s_nodes s @ [new_node B bc ec bound]\<rparr>"
  have n1: "length (s_nodes s1) = Suc i0" "s_nodes s1 ! i0 = new_node B bc ec bound"
    "\<And>j. j < i0 \<Longrightarrow> s_nodes s1 ! j = s_nodes s ! j"
    by (simp_all add: s1_def i0_def nth_append)
  from run obtain ld rd s2 where
    body: "(if \<not> fresh_count B i0 \<le> leaf_size B
            then Split n B s1 i0 br er (widest_dim B (node_bound (s_nodes s1 ! i0))) parent
            else Build_leaf s1 i0) = Some (Inr (ld, rd, s2))"
    and fin: "(i, d, s') = Build_finish i0 br er parent dpp ld rd s2"
    unfolding Build.simps Let_def i0_def[symmetric] s1_def[symmetric]
    by (auto split: option.splits sum.splits prod.splits)
  have i1: "i0 < length (s_nodes s1)" using n1(1) by simp
  have mid: "length (s_nodes s1) \<le> length (s_nodes s2) \<and>
      (\<forall>j<length (s_nodes s1). j \<noteq> i0 \<longrightarrow> s_nodes s2 ! j = s_nodes s1 ! j) \<and>
      node_begin (s_nodes s2 ! i0) = bc \<and> node_count (s_nodes s2 ! i0) = ec - bc \<and>
      node_bound (s_nodes s2 ! i0) = bound_union (Reset (Init (dim B))) bound \<and>
      no_postprocess (node_stat (s_nodes s2 ! i0))"
  proof (cases "fresh_count B i0 \<le> leaf_size B")
    case True
    then have bl: "Build_leaf s1 i0 = Some (Inr (ld, rd, s2))" using body by simp
    have st: "node_stat (s_nodes s1 ! i0) = []" by (simp add: n1(2) new_node_def)
    show ?thesis using Build_leaf_post[OF bl i1 st] by (simp add: n1(2) new_node_def)
  next
    case False
    then have "Split n B s1 i0 br er (widest_dim B (node_bound (s_nodes s1 ! i0))) parent
        = Some (Inr (ld, rd, s2))" using body by simp
    from IH[OF this i1] show ?thesis
      unfolding split_post_def by (auto simp: n1(2) new_node_def no_postprocess_def)
  qed
  have i2: "i0 < length (s_nodes s2)" using mid i1 by simp
  have par2: "p < length (s_nodes s2) \<and> p \<noteq> i0" if "parent = Some p" for p
    using par[OF that] mid n1(1) by (simp add: i0_def)
  have s'_eq: "s' = postprocess (accumulate_to_parent s2 i0 parent) i0" and i_eq: "i = i0"
    using fin by (simp_all add: Build_finish_def Let_def)
  have par2': "\<forall>p. parent = Some p \<longrightarrow> p < length (s_nodes s2) \<and> p \<noteq> i0"
    using par2 by blast
  note F = finish_nodes[OF i2 par2', folded s'_eq]
  define N where "N = s_nodes s' ! i0"
  have Nb: "node_begin N = bc" "node_count N = ec - bc"
    "node_bound N = bound_union (Reset (Init (dim B))) bound"
    "node_stat N = node_stat (s_nodes s2 ! i0) @ [Postprocess (node_bound N) (node_count N)]"
    unfolding N_def F(2) using mid by simp_all
  have old: "s_nodes s' ! j = s_nodes s ! j" if "j < length (s_nodes s)" "parent \<noteq> Some j" for j
  proof -
    have "j \<noteq> i0" "j < length (s_nodes s1)" using that(1) n1(1) by (simp_all add: i0_def)
    then show ?thesis using F(4)[of j] that mid n1(3)[of j] by (simp add: i0_def)
  qed
  have parent_stat: "s_nodes s' ! p = (s_nodes s ! p)\<lparr>node_stat := node_stat (s_nodes s ! p) @
      [AccumulateNode (node_stat (s_nodes s2 ! i0)) (node_bound N) (node_count N)]\<rparr>"
    if "parent = Some p" for p
  proof -
    have p: "p < i0" using par[OF that] by (simp add: i0_def)
    then have "s_nodes s2 ! p = s_nodes s ! p" using mid n1(1,3) by simp
    then show ?thesis using F(3)[OF that] Nb(2,3) mid by simp
  qed
  show ?thesis
    unfolding build_post_def i_eq
    apply (intro conjI)
    apply (simp add: i0_def)
    using F(1) i2 apply simp
    using old apply (simp add: i0_def)
    using Nb(1) apply (simp add: N_def)
    using Nb(2) apply (simp add: N_def)
    using Nb(3) apply (simp add: N_def)
    apply (rule exI[of _ "node_stat (s_nodes s2 ! i0)"])
    using mid Nb(4) parent_stat apply (simp add: N_def)
    done
qed

lemma Build_Split_post:
  shows "Build n B s bc ec br er bound parent dpp = Some (Inr (i, d, s')) \<Longrightarrow>
         (\<And>p. parent = Some p \<Longrightarrow> p < length (s_nodes s)) \<Longrightarrow> build_post B s bc ec bound parent i s'"
    and "Split n B s i br er sd parent = Some (Inr (ld, rd, s')) \<Longrightarrow> i < length (s_nodes s) \<Longrightarrow>
         split_post s i s'"
proof (induction n arbitrary: s bc ec br er bound parent dpp i d s' sd ld rd)
  case 0
  { case 1
    show ?case by (rule Build_post_step[OF _ 1(1) 1(2)]) (simp add: Split.simps) }
  { case 2 then show ?case by (simp add: Split.simps) }
next
  case (Suc n)
  have S: "split_post s i s'" if "Split (Suc n) B s i br er sd parent = Some (Inr (ld, rd, s'))"
    "i < length (s_nodes s)" for s i br er sd parent ld rd s'
    by (rule Split_post_step[OF _ that]) (rule Suc(1), assumption, simp)
  { case 1
    show ?case by (rule Build_post_step[OF S 1(1) 1(2)]) }
  { case 2 then show ?case by (rule S) }
qed


subsection \<open>The decomposition tree\<close>

lemma decomp_wf_cong:
  assumes "decomp_wf ns d" "length ns \<le> length ns'"
    "\<And>j. decomp_index d \<le> j \<Longrightarrow> j < length ns \<Longrightarrow>
        node_child0 (ns' ! j) = node_child0 (ns ! j) \<and> node_child1 (ns' ! j) = node_child1 (ns ! j)"
  shows "decomp_wf ns' d"
  using assms
proof (induction ns d rule: decomp_wf.induct)
  case (1 ns br er i e c0 c1)
  show ?case
  proof (cases c0)
    case None
    then show ?thesis using 1(3,4) by simp
  next
    case (Some l)
    then obtain r where r: "c1 = Some r" using 1(3) by (cases c1) simp_all
    have wf: "i < length ns" "1 < er - br" "info_begin_rank l = br" "info_end_rank l = (br + er) sdiv 2"
      "info_begin_rank r = (br + er) sdiv 2" "info_end_rank r = er"
      "node_child0 (ns ! i) = Some (decomp_index l)" "node_child1 (ns ! i) = Some (decomp_index r)"
      "i < decomp_index l" "decomp_index l < decomp_index r" "decomp_wf ns l" "decomp_wf ns r"
      using 1(3) Some r by simp_all
    have links: "node_child0 (ns' ! j) = node_child0 (ns ! j) \<and> node_child1 (ns' ! j) = node_child1 (ns ! j)"
      if "i \<le> j" "j < length ns" for j using 1(5)[of j] that by simp
    have "decomp_wf ns' l"
      using 1(1)[OF Some r wf(11) 1(4)] links wf(9) by simp
    moreover have "decomp_wf ns' r"
      using 1(2)[OF Some r wf(12) 1(4)] links wf(9,10) by simp
    ultimately show ?thesis using wf links[of i] 1(4) Some r by simp
  qed
qed


lemma Split_decomp_step:
  assumes IH: "\<And>s bc ec br er bound p dpp i d s'.
      Build n B s bc ec br er bound (Some p) dpp = Some (Inr (i, d, s')) \<Longrightarrow> p < length (s_nodes s)
      \<Longrightarrow> decomp_built dpp br er i (s_nodes s') d"
    and run: "Split (Suc n) B s i br er sd parent = Some (Inr (ld, rd, s'))"
    and i: "i < length (s_nodes s)"
  shows "decomp_split br er i (s_nodes s') ld rd"
proof -
  define s1 where "s1 = GiveOwnership B s (s_nodes s ! i) br parent"
  have n1: "s_nodes s1 = s_nodes s" by (simp add: s1_def GiveOwnership_def)
  let ?sr = "(br + er) sdiv 2"
  let ?dpp = "\<not> er - br \<le> 1"
  from run obtain sp c0 s3 c1 s5 where
    sp: "Split_choose (Suc n) B (s_points s1) (s_nodes s ! i) br er sd = Some (Inr sp)"
    and b0: "Build n B (s1\<lparr>s_points := split_points sp\<rparr>) (begin_col sp) (split_col sp) br
               ?sr (final_left_bound sp) (Some i) ?dpp = Some (Inr (c0, ld, s3))"
    and b1: "Build n B (set_child 0 s3 i c0) (split_col sp) (end_col sp) ?sr er
               (final_right_bound sp) (Some i) ?dpp = Some (Inr (c1, rd, s5))"
    and s': "s' = set_child 1 s5 i c1"
    unfolding Split.simps Let_def s1_def[symmetric]
    by (auto split: option.splits sum.splits prod.splits)
  define s2 where "s2 = s1\<lparr>s_points := split_points sp\<rparr>"
  have n2: "s_nodes s2 = s_nodes s" by (simp add: s2_def n1)
  have i2: "i < length (s_nodes s2)" using i n2 by simp
  have p0: "build_post B s2 (begin_col sp) (split_col sp) (final_left_bound sp) (Some i) c0 s3"
    using Build_Split_post(1)[OF b0[folded s2_def]] i2 by simp
  then have p0': "c0 = length (s_nodes s)" "c0 < length (s_nodes s3)"
    unfolding build_post_def n2 by auto
  define s4 where "s4 = set_child 0 s3 i c0"
  have i3: "i < length (s_nodes s3)" using i p0' by simp
  have sc4: "length (s_nodes s4) = length (s_nodes s3)"
    "s_nodes s4 ! i = (s_nodes s3 ! i)\<lparr>node_child0 := Some c0\<rparr>"
    "\<And>j. j \<noteq> i \<Longrightarrow> s_nodes s4 ! j = s_nodes s3 ! j"
    unfolding s4_def using i3 by (simp_all add: set_child_def)
  have i4: "i < length (s_nodes s4)" using i3 sc4(1) by simp
  have p1: "build_post B s4 (split_col sp) (end_col sp) (final_right_bound sp) (Some i) c1 s5"
    using Build_Split_post(1)[OF b1[folded s4_def]] i4 by simp
  then obtain st1 where p1': "c1 = length (s_nodes s4)" "c1 < length (s_nodes s5)"
    "\<And>j. j < length (s_nodes s4) \<Longrightarrow> j \<noteq> i \<Longrightarrow> s_nodes s5 ! j = s_nodes s4 ! j"
    "s_nodes s5 ! i = (s_nodes s4 ! i)\<lparr>node_stat := node_stat (s_nodes s4 ! i) @
        [AccumulateNode st1 (node_bound (s_nodes s5 ! c1)) (node_count (s_nodes s5 ! c1))]\<rparr>"
    unfolding build_post_def by auto
  have i5: "i < length (s_nodes s5)" using i4 p1'(1,2) by simp
  have sc6: "length (s_nodes s') = length (s_nodes s5)"
    "s_nodes s' ! i = (s_nodes s5 ! i)\<lparr>node_child1 := Some c1\<rparr>"
    "\<And>j. j \<noteq> i \<Longrightarrow> s_nodes s' ! j = s_nodes s5 ! j"
    unfolding s' using i5 by (simp_all add: set_child_def)
  have d0: "decomp_built ?dpp br ?sr c0 (s_nodes s3) ld" using IH[OF b0[folded s2_def] i2] .
  have d1: "decomp_built ?dpp ?sr er c1 (s_nodes s5) rd" using IH[OF b1[folded s4_def] i4] .
  show ?thesis
  proof (cases "er - br \<le> 1")
    case True
    then show ?thesis using d0 d1 by (simp add: decomp_built_def decomp_split_def)
  next
    case False
    from d0 False obtain l where l: "ld = Some l" "info_begin_rank l = br" "info_end_rank l = ?sr"
      "decomp_index l = c0" "decomp_wf (s_nodes s3) l" by (auto simp: decomp_built_def)
    from d1 False obtain r where r: "rd = Some r" "info_begin_rank r = ?sr" "info_end_rank r = er"
      "decomp_index r = c1" "decomp_wf (s_nodes s5) r" by (auto simp: decomp_built_def)
    have ic0: "i < c0" using i p0'(1) by simp
    have c01: "c0 < c1" using p0'(2) p1'(1) sc4(1) by simp
    have "decomp_wf (s_nodes s') l"
    proof (rule decomp_wf_cong[OF l(5)])
      show "length (s_nodes s3) \<le> length (s_nodes s')" using sc6(1) sc4(1) p1'(1,2) by simp
      fix j assume j: "decomp_index l \<le> j" "j < length (s_nodes s3)"
      then have "j \<noteq> i" "j < length (s_nodes s4)" using ic0 l(4) sc4(1) by simp_all
      then have "s_nodes s' ! j = s_nodes s3 ! j" using sc6(3)[of j] p1'(3)[of j] sc4(3)[of j] by simp
      then show "node_child0 (s_nodes s' ! j) = node_child0 (s_nodes s3 ! j) \<and>
          node_child1 (s_nodes s' ! j) = node_child1 (s_nodes s3 ! j)" by simp
    qed
    moreover have "decomp_wf (s_nodes s') r"
    proof (rule decomp_wf_cong[OF r(5)])
      show "length (s_nodes s5) \<le> length (s_nodes s')" using sc6(1) by simp
      fix j assume j: "decomp_index r \<le> j" "j < length (s_nodes s5)"
      then have "j \<noteq> i" using ic0 c01 r(4) by simp
      then have "s_nodes s' ! j = s_nodes s5 ! j" using sc6(3)[of j] by simp
      then show "node_child0 (s_nodes s' ! j) = node_child0 (s_nodes s5 ! j) \<and>
          node_child1 (s_nodes s' ! j) = node_child1 (s_nodes s5 ! j)" by simp
    qed
    moreover have "node_child0 (s_nodes s' ! i) = Some c0" "node_child1 (s_nodes s' ! i) = Some c1"
      using sc6(2) sc4(2) by (simp_all add: p1'(4))
    ultimately show ?thesis
      unfolding decomp_split_def using False l r ic0 c01 by simp
  qed
qed

lemma Build_decomp_step:
  assumes IH: "\<And>s i br er sd parent ld rd s'.
      Split n B s i br er sd parent = Some (Inr (ld, rd, s')) \<Longrightarrow> i < length (s_nodes s)
      \<Longrightarrow> decomp_split br er i (s_nodes s') ld rd"
    and run: "Build n B s bc ec br er bound parent dpp = Some (Inr (i, d, s'))"
    and par: "\<And>p. parent = Some p \<Longrightarrow> p < length (s_nodes s)"
  shows "decomp_built dpp br er i (s_nodes s') d"
proof -
  define i0 where "i0 = length (s_nodes s)"
  define s1 where "s1 = s\<lparr>s_nodes := s_nodes s @ [new_node B bc ec bound]\<rparr>"
  have n1: "length (s_nodes s1) = Suc i0" "s_nodes s1 ! i0 = new_node B bc ec bound"
    by (simp_all add: s1_def i0_def nth_append)
  from run obtain ld rd s2 where
    body: "(if \<not> fresh_count B i0 \<le> leaf_size B
            then Split n B s1 i0 br er (widest_dim B (node_bound (s_nodes s1 ! i0))) parent
            else Build_leaf s1 i0) = Some (Inr (ld, rd, s2))"
    and fin: "(i, d, s') = Build_finish i0 br er parent dpp ld rd s2"
    unfolding Build.simps Let_def i0_def[symmetric] s1_def[symmetric]
    by (auto split: option.splits sum.splits prod.splits)
  have i1: "i0 < length (s_nodes s1)" using n1(1) by simp
  have st: "node_stat (s_nodes s1 ! i0) = []" by (simp add: n1(2) new_node_def)
  have mid: "length (s_nodes s1) \<le> length (s_nodes s2) \<and> decomp_split br er i0 (s_nodes s2) ld rd
      \<or> length (s_nodes s1) \<le> length (s_nodes s2) \<and> ld = None \<and> rd = None"
  proof (cases "fresh_count B i0 \<le> leaf_size B")
    case True
    then have bl: "Build_leaf s1 i0 = Some (Inr (ld, rd, s2))" using body by simp
    show ?thesis using Build_leaf_post(1,7,8)[OF bl i1 st] by simp
  next
    case False
    then have sp: "Split n B s1 i0 br er (widest_dim B (node_bound (s_nodes s1 ! i0))) parent
        = Some (Inr (ld, rd, s2))" using body by simp
    show ?thesis using IH[OF sp i1] Build_Split_post(2)[OF sp i1] by (simp add: split_post_def)
  qed
  have i2: "i0 < length (s_nodes s2)" using mid i1 by auto
  have par2': "\<forall>p. parent = Some p \<longrightarrow> p < length (s_nodes s2) \<and> p \<noteq> i0"
    using par mid n1(1) by (auto simp: i0_def)
  have s'_eq: "s' = postprocess (accumulate_to_parent s2 i0 parent) i0" and i_eq: "i = i0"
    and d_eq: "d = new_decomp dpp br er i0 (length (s_nodes s')) ld rd"
    using fin by (simp_all add: Build_finish_def Let_def)
  note F = finish_nodes[OF i2 par2', folded s'_eq]
  have links: "node_child0 (s_nodes s' ! j) = node_child0 (s_nodes s2 ! j) \<and>
      node_child1 (s_nodes s' ! j) = node_child1 (s_nodes s2 ! j)" for j
  proof (cases "j = i0")
    case True then show ?thesis using F(2) by simp
  next
    case False
    show ?thesis
    proof (cases "parent = Some j")
      case True then show ?thesis using F(3)[OF True] by simp
    next
      case False then show ?thesis using F(4)[OF \<open>j \<noteq> i0\<close> False] by simp
    qed
  qed
  show ?thesis
  proof (cases dpp)
    case False
    then show ?thesis by (simp add: decomp_built_def d_eq new_decomp_def)
  next
    case True
    show ?thesis
    proof (cases ld)
      case None
      then show ?thesis using True i2 F(1)
        by (simp add: decomp_built_def d_eq new_decomp_def i_eq)
    next
      case (Some l)
      then have ds: "decomp_split br er i0 (s_nodes s2) ld rd" using mid by auto
      then obtain r where lr: "rd = Some r" "\<not> er - br \<le> 1"
        "info_begin_rank l = br" "info_end_rank l = (br + er) sdiv 2"
        "info_begin_rank r = (br + er) sdiv 2" "info_end_rank r = er"
        "node_child0 (s_nodes s2 ! i0) = Some (decomp_index l)"
        "node_child1 (s_nodes s2 ! i0) = Some (decomp_index r)"
        "i0 < decomp_index l" "decomp_index l < decomp_index r"
        "decomp_wf (s_nodes s2) l" "decomp_wf (s_nodes s2) r"
        using Some unfolding decomp_split_def by (auto split: if_splits)
      have "decomp_wf (s_nodes s') l" "decomp_wf (s_nodes s') r"
        using lr(11,12) F(1) links by (auto intro: decomp_wf_cong)
      then show ?thesis using True i2 F(1) lr Some links[of i0]
        by (simp add: decomp_built_def d_eq new_decomp_def i_eq)
    qed
  qed
qed

lemma Build_Split_decomp:
  shows "Build n B s bc ec br er bound parent dpp = Some (Inr (i, d, s')) \<Longrightarrow>
         (\<And>p. parent = Some p \<Longrightarrow> p < length (s_nodes s)) \<Longrightarrow> decomp_built dpp br er i (s_nodes s') d"
    and "Split n B s i br er sd parent = Some (Inr (ld, rd, s')) \<Longrightarrow> i < length (s_nodes s) \<Longrightarrow>
         decomp_split br er i (s_nodes s') ld rd"
proof (induction n arbitrary: s bc ec br er bound parent dpp i d s' sd ld rd)
  case 0
  { case 1
    show ?case by (rule Build_decomp_step[OF _ 1(1) 1(2)]) (simp add: Split.simps) }
  { case 2 then show ?case by (simp add: Split.simps) }
next
  case (Suc n)
  have S: "decomp_split br er i (s_nodes s') ld rd"
    if "Split (Suc n) B s i br er sd parent = Some (Inr (ld, rd, s'))"
    "i < length (s_nodes s)" for s i br er sd parent ld rd s'
    by (rule Split_decomp_step[OF _ that]) (rule Suc(1), assumption, simp)
  { case 1
    show ?case by (rule Build_decomp_step[OF S 1(1) 1(2)]) }
  { case 2 then show ?case by (rule S) }
qed


subsection \<open>Statistics and decomposition of a build\<close>

lemma result_cases:
  assumes "finished r"
  obtains i d s' where "r = Some (Inr (i, d, s'))" "built_nodes r = s_nodes s'"
    "built_decomp r = d" "built_points r = s_points s'" "built_given r = s_given s'"
  using assms unfolding finished_iff
  by (auto simp: built_nodes_def built_decomp_def built_points_def built_given_def)

text \<open>
  C9. The decomposition node that \<open>Build\<close> makes when it is asked for one carries the rank
  range and the index of the node of the call, and is well formed over the node cache:
  every decomposition node below it names a node of the cache and has no child or two
  children; it has children only when its rank range holds more than one machine, the
  rank range is then divided at its midpoint between the two, and the two are the
  decomposition nodes of the two children of its tree node.
\<close>

theorem Build_decomposition:
  assumes "Build n B s bc ec br er bound parent True = Some (Inr (i, d, s'))"
    and "parent_ok s parent"
  shows "\<exists>dn. d = Some dn \<and> info_begin_rank dn = br \<and> info_end_rank dn = er \<and>
           decomp_index dn = i \<and> decomp_wf (s_nodes s') dn"
proof -
  have "\<And>p. parent = Some p \<Longrightarrow> p < length (s_nodes s)"
    using assms(2) by (simp add: parent_ok_def)
  from Build_Split_decomp(1)[OF assms(1) this] show ?thesis
    by (simp add: decomp_built_def)
qed

theorem Build_decomposition_witness:
  "finished ranks_build \<and> parent_ok (fresh_store ranks_points) None \<and>
   built_decomp ranks_build =
     Some (DecompNode 0 4 0 7
       (Some (DecompNode 0 2 1 4 (Some (DecompNode 0 1 2 3 None None))
                                 (Some (DecompNode 1 2 3 4 None None))))
       (Some (DecompNode 2 4 4 7 (Some (DecompNode 2 3 5 6 None None))
                                 (Some (DecompNode 3 4 6 7 None None))))) \<and>
   (\<exists>dn. built_decomp ranks_build = Some dn \<and> info_begin_rank dn = 0 \<and> info_end_rank dn = 4 \<and>
      decomp_index dn = 0 \<and> decomp_wf (built_nodes ranks_build) dn)"
proof -
  have f: "finished ranks_build" by (simp add: ranks_build_eval finished_def)
  have p: "parent_ok (fresh_store ranks_points) None" by (simp add: parent_ok_def)
  have dv: "built_decomp ranks_build =
     Some (DecompNode 0 4 0 7
       (Some (DecompNode 0 2 1 4 (Some (DecompNode 0 1 2 3 None None))
                                 (Some (DecompNode 1 2 3 4 None None))))
       (Some (DecompNode 2 4 4 7 (Some (DecompNode 2 3 5 6 None None))
                                 (Some (DecompNode 3 4 6 7 None None)))))"
    by (simp add: ranks_build_eval built_decomp_def)
  from f obtain i d s' where r: "ranks_build = Some (Inr (i, d, s'))"
    "built_nodes ranks_build = s_nodes s'" "built_decomp ranks_build = d"
    by (rule result_cases)
  have i: "i = 0" using r(1) by (simp add: ranks_build_eval)
  from Build_decomposition[OF r(1)[unfolded ranks_build_def] p]
  have "\<exists>dn. built_decomp ranks_build = Some dn \<and> info_begin_rank dn = 0 \<and> info_end_rank dn = 4 \<and>
      decomp_index dn = 0 \<and> decomp_wf (built_nodes ranks_build) dn"
    using r(2,3) i by simp
  with f p dv show ?thesis by blast
qed

text \<open>
  C10. A call of \<open>Build\<close> leaves the statistic of its node as some \<open>st\<close> followed by one
  \<open>Postprocess\<close>, where \<open>st\<close> holds no \<open>Postprocess\<close>; when the node has a parent, the parent's
  statistic has grown by exactly the \<open>Accumulate\<close> of that \<open>st\<close>: the parent folds in the
  child's statistic as it is before the child's \<open>Postprocess\<close>.
\<close>

theorem Build_accumulates_before_postprocess:
  assumes "Build n B s bc ec br er bound parent dpp = Some (Inr (i, d, s'))"
    and "parent_ok s parent"
  shows "\<exists>st. no_postprocess st \<and>
     node_stat (s_nodes s' ! i)
       = st @ [Postprocess (node_bound (s_nodes s' ! i)) (node_count (s_nodes s' ! i))] \<and>
     (case parent of
        None \<Rightarrow> True
      | Some p \<Rightarrow>
          node_stat (s_nodes s' ! p) = node_stat (s_nodes s ! p) @
            [AccumulateNode st (node_bound (s_nodes s' ! i)) (node_count (s_nodes s' ! i))])"
proof -
  have "\<And>p. parent = Some p \<Longrightarrow> p < length (s_nodes s)"
    using assms(2) by (simp add: parent_ok_def)
  from Build_Split_post(1)[OF assms(1) this] obtain st where st: "no_postprocess st"
    "node_stat (s_nodes s' ! i)
       = st @ [Postprocess (node_bound (s_nodes s' ! i)) (node_count (s_nodes s' ! i))]"
    "\<And>p. parent = Some p \<Longrightarrow> s_nodes s' ! p = (s_nodes s ! p)
       \<lparr>node_stat := node_stat (s_nodes s ! p) @
          [AccumulateNode st (node_bound (s_nodes s' ! i)) (node_count (s_nodes s' ! i))]\<rparr>"
    unfolding build_post_def by blast
  show ?thesis
  proof (intro exI[of _ st] conjI st(1,2))
    show "case parent of
        None \<Rightarrow> True
      | Some p \<Rightarrow>
          node_stat (s_nodes s' ! p) = node_stat (s_nodes s ! p) @
            [AccumulateNode st (node_bound (s_nodes s' ! i)) (node_count (s_nodes s' ! i))]"
      using st(3) by (cases parent) simp_all
  qed
qed

theorem Build_accumulates_before_postprocess_witness:
  "finished child_build \<and> parent_ok child_store (Some 0) \<and>
   node_stat (s_nodes child_store ! 0) = [] \<and>
   node_stat (built_nodes child_build ! 0)
     = [AccumulateNode [AccumulatePoint [1]] [\<lparr>lo = 1, hi = 1\<rparr>] 1] \<and>
   node_stat (built_nodes child_build ! 1)
     = [AccumulatePoint [1], Postprocess [\<lparr>lo = 1, hi = 1\<rparr>] 1] \<and>
   (\<exists>st. no_postprocess st \<and>
      node_stat (built_nodes child_build ! 1)
        = st @ [Postprocess (node_bound (built_nodes child_build ! 1))
                 (node_count (built_nodes child_build ! 1))] \<and>
      node_stat (built_nodes child_build ! 0) = node_stat (s_nodes child_store ! 0) @
        [AccumulateNode st (node_bound (built_nodes child_build ! 1))
          (node_count (built_nodes child_build ! 1))])"
proof -
  have f: "finished child_build" by (simp add: child_build_eval finished_def)
  have p: "parent_ok child_store (Some 0)" by (simp add: parent_ok_def child_store_def)
  have v: "node_stat (s_nodes child_store ! 0) = []"
    "node_stat (built_nodes child_build ! 0)
       = [AccumulateNode [AccumulatePoint [1]] [\<lparr>lo = 1, hi = 1\<rparr>] 1]"
    "node_stat (built_nodes child_build ! 1)
       = [AccumulatePoint [1], Postprocess [\<lparr>lo = 1, hi = 1\<rparr>] 1]"
    by (simp_all add: child_build_eval built_nodes_def child_store_def new_node_def)
  from f obtain i d s' where r: "child_build = Some (Inr (i, d, s'))"
    "built_nodes child_build = s_nodes s'" by (rule result_cases)
  have i: "i = 1" using r(1) by (simp add: child_build_eval)
  from Build_accumulates_before_postprocess[OF r(1)[unfolded child_build_def] p]
  have "\<exists>st. no_postprocess st \<and>
      node_stat (built_nodes child_build ! 1)
        = st @ [Postprocess (node_bound (built_nodes child_build ! 1))
                 (node_count (built_nodes child_build ! 1))] \<and>
      node_stat (built_nodes child_build ! 0) = node_stat (s_nodes child_store ! 0) @
        [AccumulateNode st (node_bound (built_nodes child_build ! 1))
          (node_count (built_nodes child_build ! 1))]"
    using r(2) i by simp
  with f p v show ?thesis by blast
qed

subsection \<open>Ownership given away\<close>

lemma given_finish: "s_given (postprocess (accumulate_to_parent s i parent) i) = s_given s"
  by (cases parent) (simp_all add: postprocess_def accumulate_to_parent_def Let_def)


lemma given_Build_leaf: "Build_leaf s i = Some (Inr (ld, rd, s')) \<Longrightarrow> s_given s' = s_given s"
  by (auto simp: Build_leaf_def Let_def split: sum.splits)






end
